theory Spec2Isabelle
  imports Complex_Main "HOL-Library.Product_Lexorder" "HOL-Library.Multiset"
begin

section \<open>Values of a numeric column\<close>

text \<open>
  A cell of a pandas float64 column. Finite values are carried exactly (as reals): rounding
  and overflow are outside this model. The three special values are the ones the pipeline
  can produce or test for: \<open>NaN\<close> is pandas' missing value (what \<open>dropna\<close>, \<open>notna\<close> and
  \<open>ffill\<close> look at), \<open>PInf\<close> and \<open>NInf\<close> are the two infinities of a float division by
  zero. Zero is unsigned here.
\<close>

datatype fl = Fin real | PInf | NInf | NaN

fun isna :: "fl \<Rightarrow> bool" where
  "isna NaN = True"
| "isna _ = False"

fun isfinite :: "fl \<Rightarrow> bool" where
  "isfinite (Fin _) = True"
| "isfinite _ = False"

text \<open>numpy's elementwise float subtraction and division: they never raise.\<close>

fun fsub :: "fl \<Rightarrow> fl \<Rightarrow> fl" where
  "fsub NaN _ = NaN"
| "fsub _ NaN = NaN"
| "fsub (Fin a) (Fin b) = Fin (a - b)"
| "fsub (Fin _) PInf = NInf"
| "fsub (Fin _) NInf = PInf"
| "fsub PInf PInf = NaN"
| "fsub PInf _ = PInf"
| "fsub NInf NInf = NaN"
| "fsub NInf _ = NInf"

fun fdiv :: "fl \<Rightarrow> fl \<Rightarrow> fl" where
  "fdiv NaN _ = NaN"
| "fdiv _ NaN = NaN"
| "fdiv (Fin a) (Fin b) =
     (if b = 0 then (if a = 0 then NaN else if 0 < a then PInf else NInf)
      else Fin (a / b))"
| "fdiv (Fin _) _ = Fin 0"
| "fdiv PInf (Fin b) = (if 0 \<le> b then PInf else NInf)"
| "fdiv NInf (Fin b) = (if 0 \<le> b then NInf else PInf)"
| "fdiv _ _ = NaN"

text \<open>The comparison \<open>a > b\<close> on floats: false whenever a NaN is involved.\<close>

fun fgt :: "fl \<Rightarrow> fl \<Rightarrow> bool" where
  "fgt NaN _ = False"
| "fgt _ NaN = False"
| "fgt (Fin a) (Fin b) = (b < a)"
| "fgt PInf PInf = False"
| "fgt PInf _ = True"
| "fgt _ PInf = False"
| "fgt NInf _ = False"
| "fgt (Fin _) NInf = True"


section \<open>The sequential backend: smoothing and restarts (07_train_liquidity_regime_hmm.py)\<close>

text \<open>
  A fitted \<open>GaussianHMM\<close>: the constructor arguments it was built with, the transition
  matrix \<open>transmat_\<close> (a list of rows) and the remaining fitted parameters, which this
  development never inspects.
\<close>

record hmm_args =
  n_components :: nat
  covariance_type :: string
  n_iter :: nat
  tol :: real
  random_state :: nat
  min_covar :: real

record 'p hmm =
  args :: hmm_args
  transmat :: "real list list"
  params :: 'p

text \<open>
  \<open>_smooth_transmat\<close>: \<open>T = T + eps; T = T / T.sum(axis=1, keepdims=True)\<close>.
  The entries are reals and the division is the reals': the two agree with numpy wherever
  the divisor is not zero, which is so for every row of non-negative entries once a
  positive \<open>eps\<close> has been added.
\<close>

definition add_eps :: "real list list \<Rightarrow> real \<Rightarrow> real list list" where
  "add_eps T eps = map (map (\<lambda>x. x + eps)) T"

definition normalize_rows :: "real list list \<Rightarrow> real list list" where
  "normalize_rows T = map (\<lambda>row. map (\<lambda>x. x / sum_list row) row) T"

definition smooth_transmat :: "'p hmm \<Rightarrow> real \<Rightarrow> 'p hmm" where
  "smooth_transmat model eps = model\<lparr>transmat := normalize_rows (add_eps (transmat model) eps)\<rparr>"

text \<open>
  \<open>_fit_best_hmm\<close>. The library's EM fit and its log-likelihood are parameters:
  \<open>fit a Xs\<close> is what \<open>GaussianHMM(**a).fit(Xs)\<close> leaves in the model (transition matrix
  and the other fitted parameters), \<open>score m Xs\<close> is \<open>m.score(Xs)\<close>. The loop state is
  \<open>(best_model, best_score)\<close>, starting at \<open>(None, -inf)\<close>; the final \<open>assert\<close> is the
  error branch.
\<close>

datatype py_error = AssertionError | KeyError | IndexError | ValueError | SystemExit

definition seeds :: "nat \<Rightarrow> nat list" where
  "seeds n_tries = [42 ..< 42 + n_tries]"

definition GaussianHMM :: "nat \<Rightarrow> nat \<Rightarrow> real \<Rightarrow> hmm_args" where
  "GaussianHMM ncomp seed mc =
     \<lparr>n_components = ncomp, covariance_type = ''diag'', n_iter = 500, tol = 1 / 10 ^ 4,
      random_state = seed, min_covar = mc\<rparr>"

definition fitted :: "(hmm_args \<Rightarrow> 'x \<Rightarrow> real list list \<times> 'p) \<Rightarrow> hmm_args \<Rightarrow> 'x \<Rightarrow> 'p hmm" where
  "fitted fit a Xs = \<lparr>args = a, transmat = fst (fit a Xs), params = snd (fit a Xs)\<rparr>"

definition restart :: "(hmm_args \<Rightarrow> 'x \<Rightarrow> real list list \<times> 'p) \<Rightarrow> 'x \<Rightarrow> nat \<Rightarrow> real \<Rightarrow> real
    \<Rightarrow> nat \<Rightarrow> 'p hmm" where
  "restart fit Xs ncomp mc ts seed = smooth_transmat (fitted fit (GaussianHMM ncomp seed mc) Xs) ts"

fun fit_loop :: "(hmm_args \<Rightarrow> 'x \<Rightarrow> real list list \<times> 'p) \<Rightarrow> ('p hmm \<Rightarrow> 'x \<Rightarrow> fl) \<Rightarrow> 'x
    \<Rightarrow> nat \<Rightarrow> real \<Rightarrow> real \<Rightarrow> nat list \<Rightarrow> 'p hmm option \<times> fl \<Rightarrow> 'p hmm option \<times> fl" where
  "fit_loop fit score Xs ncomp mc ts [] st = st"
| "fit_loop fit score Xs ncomp mc ts (seed # rest) (best_model, best_score) =
     (let model = restart fit Xs ncomp mc ts seed;
          sc = score model Xs
      in if fgt sc best_score
         then fit_loop fit score Xs ncomp mc ts rest (Some model, sc)
         else fit_loop fit score Xs ncomp mc ts rest (best_model, best_score))"

definition fit_best_hmm :: "(hmm_args \<Rightarrow> 'x \<Rightarrow> real list list \<times> 'p) \<Rightarrow> ('p hmm \<Rightarrow> 'x \<Rightarrow> fl) \<Rightarrow> 'x
    \<Rightarrow> nat \<Rightarrow> nat \<Rightarrow> real \<Rightarrow> real \<Rightarrow> py_error + 'p hmm" where
  "fit_best_hmm fit score Xs ncomp n_tries mc ts =
     (case fst (fit_loop fit score Xs ncomp mc ts (seeds n_tries) (None, NInf)) of
        None \<Rightarrow> Inl AssertionError
      | Some best_model \<Rightarrow> Inr best_model)"

text \<open>
  Canonical relabeling in \<open>main\<close> of the sequential backend, after
  \<open>_order_states_by_expansiveness\<close>. The frame \<open>df2\<close> enters through its two columns
  \<open>netliq_z252\<close> and \<open>gcb_z252\<close> (finite on retained rows, which passed \<open>notna\<close>), the fit
  through \<open>hidden_states\<close>, the posterior \<open>post\<close> (one row of \<open>K\<close> probabilities per retained
  row; \<open>K\<close> is \<open>post.shape[1]\<close>) and the smoothed transition matrix.

  \<open>groupby("state")\<close> lists the observed states in increasing order; \<open>mean\<close> averages each
  column over a group; \<open>sort_values(ascending=False)\<close> orders the groups by descending score
  (equal scores keep their order). A Python dict is an association list read with
  \<open>map_of\<close>; a dict comprehension lets a later item win, hence \<open>dict_of\<close>.
\<close>

definition dict_of :: "('k \<times> 'v) list \<Rightarrow> 'k \<rightharpoonup> 'v" where
  "dict_of items = map_of (rev items)"

definition group_keys :: "nat list \<Rightarrow> nat list" where
  "group_keys states = sort (remdups states)"

definition group_mean :: "real list \<Rightarrow> nat list \<Rightarrow> nat \<Rightarrow> real" where
  "group_mean col states k =
     (let g = map fst (filter (\<lambda>(x, s). s = k) (zip col states))
      in sum_list g / real (length g))"

definition expansiveness :: "real list \<Rightarrow> real list \<Rightarrow> nat list \<Rightarrow> nat \<Rightarrow> real" where
  "expansiveness netliq gcb states k = group_mean netliq states k + group_mean gcb states k"

definition state_order :: "real list \<Rightarrow> real list \<Rightarrow> nat list \<Rightarrow> nat list" where
  "state_order netliq gcb states =
     sort_key (\<lambda>k. - expansiveness netliq gcb states k) (group_keys states)"

definition order_states_by_expansiveness :: "real list \<Rightarrow> real list \<Rightarrow> nat list \<Rightarrow> (nat \<times> nat) list" where
  "order_states_by_expansiveness netliq gcb hidden_states =
     (let order = state_order netliq gcb hidden_states
      in map (\<lambda>(new_regime, old_state). (old_state, new_regime)) (enumerate 0 order))"

text \<open>\<open>Series.map(mapping)\<close>: a state the dict does not hold becomes missing.\<close>

definition map_states :: "(nat \<times> nat) list \<Rightarrow> nat list \<Rightarrow> nat option list" where
  "map_states mapping states = map (dict_of mapping) states"

text \<open>
  The loop \<open>for old_state in range(post.shape[1])\<close> over \<open>p_regime\<close>, which starts as
  \<open>zeros_like(post)\<close>: \<open>mapping[old_state]\<close> raises \<open>KeyError\<close> for an absent state, and
  writing column \<open>new_regime\<close> raises \<open>IndexError\<close> outside the \<open>K\<close> columns.
\<close>

fun reorder_post :: "(nat \<times> nat) list \<Rightarrow> nat \<Rightarrow> real list list \<Rightarrow> nat list \<Rightarrow> real list list
    \<Rightarrow> py_error + real list list" where
  "reorder_post mapping K post [] p_regime = Inr p_regime"
| "reorder_post mapping K post (old_state # rest) p_regime =
     (case dict_of mapping old_state of
        None \<Rightarrow> Inl KeyError
      | Some new_regime \<Rightarrow>
          if K \<le> new_regime then Inl IndexError
          else reorder_post mapping K post rest
                 (map2 (\<lambda>prow row. prow[new_regime := row ! old_state]) p_regime post))"

definition lookup_key :: "('k \<rightharpoonup> 'v) \<Rightarrow> 'k \<Rightarrow> py_error + 'v" where
  "lookup_key d k = (case d k of None \<Rightarrow> Inl KeyError | Some v \<Rightarrow> Inr v)"

text \<open>\<open>trans_raw[np.ix_(order_raw, order_raw)]\<close>; an index outside the matrix raises.\<close>

definition ix_select :: "real list list \<Rightarrow> nat list \<Rightarrow> py_error + real list list" where
  "ix_select T order_raw =
     (if list_all (\<lambda>i. i < length T) order_raw
         \<and> list_all (\<lambda>row. list_all (\<lambda>j. j < length row) order_raw) T
      then Inr (map (\<lambda>i. map (\<lambda>j. T ! i ! j) order_raw) order_raw)
      else Inl IndexError)"

record hmm_output =
  regime :: "nat list"
  p_regime :: "real list list"
  trans_regime :: "real list list"

definition hmm_relabel :: "real list \<Rightarrow> real list \<Rightarrow> nat list \<Rightarrow> nat \<Rightarrow> real list list \<Rightarrow> real list list
    \<Rightarrow> py_error + hmm_output" where
  "hmm_relabel netliq gcb hidden_states K post trans_raw =
     (let mapping = order_states_by_expansiveness netliq gcb hidden_states in
      case those (map_states mapping hidden_states) of
        None \<Rightarrow> Inl ValueError
      | Some reg \<Rightarrow>
        (case reorder_post mapping K post [0 ..< K] (map (\<lambda>row. map (\<lambda>_. 0) row) post) of
           Inl e \<Rightarrow> Inl e
         | Inr p \<Rightarrow>
           (let inv = dict_of (map (\<lambda>(k, v). (v, k)) mapping) in
            case lookup_key inv 0 of Inl e \<Rightarrow> Inl e | Inr i0 \<Rightarrow>
            case lookup_key inv 1 of Inl e \<Rightarrow> Inl e | Inr i1 \<Rightarrow>
            case lookup_key inv 2 of Inl e \<Rightarrow> Inl e | Inr i2 \<Rightarrow>
            case ix_select trans_raw [i0, i1, i2] of
              Inl e \<Rightarrow> Inl e
            | Inr t \<Rightarrow> Inr \<lparr>regime = reg, p_regime = p, trans_regime = t\<rparr>)))"


section \<open>The static backend (06_train_liquidity_regime_gmm.py)\<close>

text \<open>
  The relabeling part of \<open>main\<close>: the columns \<open>regime_p0\<close>, \<open>regime_p1\<close>, \<open>regime_p2\<close> are
  written from \<open>probs[:, 0]\<close>, \<open>probs[:, 1]\<close>, \<open>probs[:, 2]\<close> before the mapping is built, and
  \<open>regime\<close> is \<open>regime_raw.map(mapping)\<close>. The written table holds \<open>regime\<close> and the three
  probability columns.
\<close>

record gmm_output =
  gmm_regime :: "nat option list"
  regime_p :: "real list list"

definition gmm_relabel :: "real list \<Rightarrow> real list \<Rightarrow> nat list \<Rightarrow> real list list \<Rightarrow> py_error + gmm_output" where
  "gmm_relabel netliq gcb regimes probs =
     (if list_all (\<lambda>row. 3 \<le> length row) probs
      then (let ps = map (\<lambda>row. [row ! 0, row ! 1, row ! 2]) probs;
                order = state_order netliq gcb regimes;
                mapping = map (\<lambda>(new, old). (old, new)) (enumerate 0 order)
            in Inr \<lparr>gmm_regime = map_states mapping regimes, regime_p = ps\<rparr>)
      else Inl IndexError)"


section \<open>Derived and rolling features (05_build_gli_master.py)\<close>

text \<open>
  A column is the list of its cells in row order. \<open>ffill\<close> is pandas' forward fill: a
  missing cell takes the last value seen above it.
\<close>

fun ffill_from :: "fl \<Rightarrow> fl list \<Rightarrow> fl list" where
  "ffill_from prev [] = []"
| "ffill_from prev (x # xs) = (if isna x then prev # ffill_from prev xs else x # ffill_from x xs)"

definition ffill :: "fl list \<Rightarrow> fl list" where
  "ffill xs = ffill_from NaN xs"

text \<open>
  \<open>pct_change\<close> divides by cells of the column itself, and a float division tells the two
  zeros apart: \<open>5 / 0.0\<close> is plus infinity and \<open>5 / -0.0\<close> is minus infinity. For this
  feature a cell therefore keeps the sign of a zero: \<open>Val (Fin 0)\<close> is \<open>+0.0\<close> and \<open>NegZero\<close>
  is \<open>-0.0\<close>. \<open>sdiv\<close> and \<open>ssub\<close> are the IEEE division and subtraction on such cells (exact
  on finite values): the sign of a quotient is the product of the signs, a zero or an
  infinity where the operands make one; a difference of equal numbers is \<open>+0.0\<close>, and only
  \<open>-0.0 - +0.0\<close> is \<open>-0.0\<close>.
\<close>

datatype sfl = Val fl | NegZero

fun snan :: "sfl \<Rightarrow> bool" where
  "snan (Val NaN) = True"
| "snan _ = False"

fun szero :: "sfl \<Rightarrow> bool" where
  "szero (Val (Fin a)) = (a = 0)"
| "szero NegZero = True"
| "szero _ = False"

fun sinf :: "sfl \<Rightarrow> bool" where
  "sinf (Val PInf) = True"
| "sinf (Val NInf) = True"
| "sinf _ = False"

fun sneg :: "sfl \<Rightarrow> bool" where
  "sneg (Val (Fin a)) = (a < 0)"
| "sneg NegZero = True"
| "sneg (Val NInf) = True"
| "sneg _ = False"

fun num :: "sfl \<Rightarrow> real option" where
  "num (Val (Fin a)) = Some a"
| "num NegZero = Some 0"
| "num _ = None"

definition sval :: "sfl \<Rightarrow> real" where
  "sval x = (case num x of None \<Rightarrow> 0 | Some a \<Rightarrow> a)"

definition sdiv :: "sfl \<Rightarrow> sfl \<Rightarrow> sfl" where
  "sdiv x y =
     (if snan x \<or> snan y then Val NaN
      else if (szero x \<and> szero y) \<or> (sinf x \<and> sinf y) then Val NaN
      else if szero y \<or> sinf x then (if sneg x = sneg y then Val PInf else Val NInf)
      else if szero x \<or> sinf y then (if sneg x = sneg y then Val (Fin 0) else NegZero)
      else Val (Fin (sval x / sval y)))"

definition ssub :: "sfl \<Rightarrow> sfl \<Rightarrow> sfl" where
  "ssub x y =
     (if snan x \<or> snan y then Val NaN
      else if sinf x then (if sinf y \<and> sneg x = sneg y then Val NaN else x)
      else if sinf y then (if sneg y then Val PInf else Val NInf)
      else if x = NegZero \<and> y = Val (Fin 0) then NegZero
      else Val (Fin (sval x - sval y)))"

text \<open>
  \<open>s.pct_change(periods)\<close> is called without a \<open>fill_method\<close>, so what it divides depends on
  the installed pandas: before pandas 3 the default forward-fills the column first
  (\<open>pad = True\<close>), from pandas 3 the column is taken as it is (\<open>pad = False\<close>); on a column
  without missing cells the two are the same. Then it computes
  \<open>data / data.shift(periods) - 1\<close>, where \<open>shift\<close> moves the cells down by \<open>periods\<close> rows
  and leaves the first ones missing.
\<close>

fun pad_from :: "sfl \<Rightarrow> sfl list \<Rightarrow> sfl list" where
  "pad_from prev [] = []"
| "pad_from prev (x # xs) = (if snan x then prev # pad_from prev xs else x # pad_from x xs)"

definition pct_data :: "bool \<Rightarrow> sfl list \<Rightarrow> sfl list" where
  "pct_data pad s = (if pad then pad_from (Val NaN) s else s)"

definition shift :: "nat \<Rightarrow> sfl list \<Rightarrow> sfl list" where
  "shift periods xs = replicate (min periods (length xs)) (Val NaN) @ take (length xs - periods) xs"

definition pct_change :: "bool \<Rightarrow> sfl list \<Rightarrow> nat \<Rightarrow> sfl list" where
  "pct_change pad s periods =
     (let data = pct_data pad s; shifted = shift periods data
      in map2 (\<lambda>a b. ssub (sdiv a b) (Val (Fin 1))) data shifted)"

text \<open>
  \<open>s.rolling(window)\<close> with the default \<open>min_periods = window\<close>: the statistic at row \<open>t\<close>
  is computed over the trailing \<open>window\<close> rows when there are that many and all of them are
  finite numbers (pandas turns an infinity into a missing cell before it counts the
  observations), and is missing otherwise.
\<close>

fun fin_opt :: "fl \<Rightarrow> real option" where
  "fin_opt (Fin a) = Some a"
| "fin_opt _ = None"

definition window_at :: "nat \<Rightarrow> fl list \<Rightarrow> nat \<Rightarrow> real list option" where
  "window_at window xs t =
     (if window = 0 \<or> t + 1 < window then None
      else those (map fin_opt (take window (drop (t + 1 - window) xs))))"

definition rolling_apply :: "nat \<Rightarrow> (real list \<Rightarrow> fl) \<Rightarrow> fl list \<Rightarrow> fl list" where
  "rolling_apply window f xs =
     map (\<lambda>t. case window_at window xs t of None \<Rightarrow> NaN | Some win \<Rightarrow> f win) [0 ..< length xs]"

definition mean :: "real list \<Rightarrow> real" where
  "mean win = sum_list win / real (length win)"

text \<open>\<open>std(ddof)\<close>: the divisor is the number of observations less \<open>ddof\<close>.\<close>

definition std :: "nat \<Rightarrow> real list \<Rightarrow> fl" where
  "std ddof win =
     (if length win \<le> ddof then NaN
      else Fin (sqrt ((\<Sum>x\<leftarrow>win. (x - mean win)\<^sup>2) / real (length win - ddof))))"

definition zscore :: "fl list \<Rightarrow> nat \<Rightarrow> fl list" where
  "zscore s window =
     (let mu = rolling_apply window (\<lambda>win. Fin (mean win)) s;
          sd = rolling_apply window (std 0) s
      in map (\<lambda>(x, m, d). fdiv (fsub x m) d) (zip s (zip mu sd)))"

text \<open>
  \<open>pd.Series(x).rank(pct=True)\<close>, with the default method \<open>average\<close>: the values equal to
  \<open>x\<close> would take the places after the smaller ones, and each of them gets the mean of those
  places; \<open>pct\<close> divides by the number of values. \<open>iloc[-1]\<close> is the last of them (a window
  has at least one row).
\<close>

definition rank_average :: "real list \<Rightarrow> real \<Rightarrow> real" where
  "rank_average win x =
     real (length (filter (\<lambda>y. y < x) win)) + (real (length (filter (\<lambda>y. y = x) win)) + 1) / 2"

definition rank_pct :: "real list \<Rightarrow> real list" where
  "rank_pct win = map (\<lambda>x. rank_average win x / real (length win)) win"

definition pct_rank :: "fl list \<Rightarrow> nat \<Rightarrow> fl list" where
  "pct_rank s window = rolling_apply window (\<lambda>x. Fin (last (rank_pct x))) s"


section \<open>Reading and aligning series (02_, 03_, 04_build_*.py, run_ingest_incremental.py)\<close>

text \<open>
  Timestamps are integers (instants on the UTC time line); a coerced timestamp is an
  \<open>int option\<close>, \<open>None\<close> being \<open>NaT\<close>. The two coercions of pandas,
  \<open>to_datetime(utc=True, errors="coerce")\<close> and \<open>to_numeric(errors="coerce")\<close>, are parameters
  \<open>to_dt\<close> and \<open>to_num\<close>: what they parse is not this development's concern, only that a
  failure is \<open>NaT\<close> or \<open>NaN\<close>.

  \<open>_read_series\<close> (02, 03) and \<open>_read\<close> (04) are the same function up to the name of the
  value column. The frame read from the file may lack a column; the rows are the pairs of
  the two columns. \<open>sort_values("date")\<close> is taken stable (rows of equal timestamp keep
  their order).
\<close>

record ('d, 'v) raw_frame =
  date_col :: "'d list option"
  value_col :: "'v list option"

definition coerce_row :: "('d \<Rightarrow> int option) \<Rightarrow> ('v \<Rightarrow> fl) \<Rightarrow> 'd \<times> 'v \<Rightarrow> (int \<times> fl) option" where
  "coerce_row to_dt to_num r =
     (case to_dt (fst r) of
        None \<Rightarrow> None
      | Some ts \<Rightarrow> if isna (to_num (snd r)) then None else Some (ts, to_num (snd r)))"

definition read_series :: "('d \<Rightarrow> int option) \<Rightarrow> ('v \<Rightarrow> fl) \<Rightarrow> ('d, 'v) raw_frame
    \<Rightarrow> py_error + (int \<times> fl) list" where
  "read_series to_dt to_num df =
     (case (date_col df, value_col df) of
        (Some ds, Some vs) \<Rightarrow> Inr (sort_key fst (List.map_filter (coerce_row to_dt to_num) (zip ds vs)))
      | _ \<Rightarrow> Inl SystemExit)"

text \<open>
  \<open>_merge_append\<close>. A row carries its \<open>date\<close> cell, its \<open>series_id\<close> cell and the rest;
  a cell of a column the frame lacks is \<open>None\<close>. \<open>drop_duplicates(keep="last")\<close> keeps a
  row when no later row has the same key; it runs before \<open>dropna\<close> and \<open>sort_values\<close>.
  Without a \<open>date\<close> column \<open>drop_duplicates\<close> raises \<open>KeyError\<close>.
\<close>

record ('d, 's, 'v) bronze =
  has_date :: bool
  has_series_id :: bool
  rows :: "('d option \<times> 's option \<times> 'v) list"

definition concat_frames :: "('d, 's, 'v) bronze \<Rightarrow> ('d, 's, 'v) bronze \<Rightarrow> ('d, 's, 'v) bronze" where
  "concat_frames old new =
     \<lparr>has_date = (has_date old \<or> has_date new),
      has_series_id = (has_series_id old \<or> has_series_id new),
      rows = rows old @ rows new\<rparr>"

fun drop_duplicates_last :: "('r \<Rightarrow> 'k) \<Rightarrow> 'r list \<Rightarrow> 'r list" where
  "drop_duplicates_last key [] = []"
| "drop_duplicates_last key (r # rs) =
     (if key r \<in> set (map key rs) then drop_duplicates_last key rs
      else r # drop_duplicates_last key rs)"

definition date_of :: "('d \<Rightarrow> int option) \<Rightarrow> 'd option \<Rightarrow> int option" where
  "date_of to_dt c = (case c of None \<Rightarrow> None | Some d \<Rightarrow> to_dt d)"

definition drop_nat :: "int option \<times> 'a \<Rightarrow> (int \<times> 'a) option" where
  "drop_nat r = (case fst r of None \<Rightarrow> None | Some ts \<Rightarrow> Some (ts, snd r))"

definition merge_append :: "('d \<Rightarrow> int option) \<Rightarrow> ('d, 's, 'v) bronze option \<Rightarrow> ('d, 's, 'v) bronze
    \<Rightarrow> py_error + (int \<times> 's option \<times> 'v) list" where
  "merge_append to_dt old new_df =
     (let df = (case old of None \<Rightarrow> new_df | Some old_df \<Rightarrow> concat_frames old_df new_df) in
      if \<not> has_date df then Inl KeyError
      else
        (let coerced = map (\<lambda>r. (date_of to_dt (fst r), snd r)) (rows df);
             deduped = (if has_series_id df
                        then drop_duplicates_last (\<lambda>r. (fst r, fst (snd r))) coerced
                        else drop_duplicates_last fst coerced)
         in Inr (sort_key fst (List.map_filter drop_nat deduped))))"

text \<open>
  The alignment of \<open>main\<close> in 02, 03 (three series) and 04 (five): a chain of
  \<open>merge(on="date", how="outer")\<close>, \<open>sort_values("date")\<close>, \<open>ffill\<close> of every column and
  \<open>dropna\<close> on every column. A frame row is its timestamp and its cells in column order.
  An outer merge pairs every left row with every right row of the same timestamp, keeps a
  left row without partner (its new cell missing) and adds the right rows without partner
  (their old cells missing).
\<close>

type_synonym series = "(int \<times> fl) list"
type_synonym aligned = "(int \<times> fl list) list"

definition to_frame :: "series \<Rightarrow> aligned" where
  "to_frame s = map (\<lambda>(k, v). (k, [v])) s"

definition merge_outer :: "nat \<Rightarrow> aligned \<Rightarrow> series \<Rightarrow> aligned" where
  "merge_outer width left right =
     concat (map (\<lambda>(k, cells).
                case filter (\<lambda>(k', v). k' = k) right of
                  [] \<Rightarrow> [(k, cells @ [NaN])]
                | ms \<Rightarrow> map (\<lambda>(k', v). (k, cells @ [v])) ms) left)
     @ map (\<lambda>(k, v). (k, replicate width NaN @ [v]))
         (filter (\<lambda>(k, v). k \<notin> set (map fst left)) right)"

fun merge_chain :: "nat \<Rightarrow> aligned \<Rightarrow> series list \<Rightarrow> aligned" where
  "merge_chain width acc [] = acc"
| "merge_chain width acc (s # ss) = merge_chain (width + 1) (merge_outer width acc s) ss"

definition column :: "aligned \<Rightarrow> nat \<Rightarrow> fl list" where
  "column df j = map (\<lambda>r. snd r ! j) df"

definition ffill_columns :: "nat \<Rightarrow> aligned \<Rightarrow> aligned" where
  "ffill_columns n df =
     (let cols = map (\<lambda>j. ffill (column df j)) [0 ..< n]
      in map (\<lambda>i. (fst (df ! i), map (\<lambda>c. c ! i) cols)) [0 ..< length df])"

definition dropna :: "aligned \<Rightarrow> aligned" where
  "dropna df = filter (\<lambda>r. list_all (\<lambda>c. \<not> isna c) (snd r)) df"

definition align :: "series list \<Rightarrow> aligned" where
  "align ss =
     (case ss of
        [] \<Rightarrow> []
      | s # rest \<Rightarrow> dropna (ffill_columns (length ss) (sort_key fst (merge_chain 1 (to_frame s) rest))))"

text \<open>
  \<open>main\<close> of 02 and 04 reads every series with the reader (the first failure stops the
  script) and aligns what the readers returned.
\<close>

fun read_all :: "('d \<Rightarrow> int option) \<Rightarrow> ('v \<Rightarrow> fl) \<Rightarrow> ('d, 'v) raw_frame list
    \<Rightarrow> py_error + series list" where
  "read_all to_dt to_num [] = Inr []"
| "read_all to_dt to_num (df # dfs) =
     (case read_series to_dt to_num df of
        Inl e \<Rightarrow> Inl e
      | Inr s \<Rightarrow> (case read_all to_dt to_num dfs of Inl e \<Rightarrow> Inl e | Inr ss \<Rightarrow> Inr (s # ss)))"

definition build_aligned :: "('d \<Rightarrow> int option) \<Rightarrow> ('v \<Rightarrow> fl) \<Rightarrow> ('d, 'v) raw_frame list
    \<Rightarrow> py_error + aligned" where
  "build_aligned to_dt to_num dfs =
     (case read_all to_dt to_num dfs of Inl e \<Rightarrow> Inl e | Inr ss \<Rightarrow> Inr (align ss))"

text \<open>
  What the chain of outer merges yields, used to state the merge's invariant: the
  timestamps of all series (\<open>keys_of\<close>); a cell that agrees with a series at a timestamp
  (\<open>cell_ok\<close>: the value of an observation of that timestamp, or missing when the series has
  none there); and a frame over exactly those timestamps whose rows have one such cell per
  series (\<open>merged\<close>).
\<close>

definition keys_of :: "series list \<Rightarrow> int set" where
  "keys_of S = (\<Union>s \<in> set S. set (map fst s))"

definition cell_ok :: "series \<Rightarrow> int \<Rightarrow> fl \<Rightarrow> bool" where
  "cell_ok s k c \<longleftrightarrow> (k, c) \<in> set s \<or> (c = NaN \<and> k \<notin> set (map fst s))"

definition merged :: "series list \<Rightarrow> aligned \<Rightarrow> bool" where
  "merged S F \<longleftrightarrow>
     set (map fst F) = keys_of S
     \<and> (\<forall>r \<in> set F. length (snd r) = length S
           \<and> (\<forall>j < length S. cell_ok (S ! j) (fst r) (snd r ! j)))"

text \<open>
  The merge of 05_build_gli_master.py: both \<open>date\<close> columns are coerced, the frames are
  joined with \<open>how="inner"\<close> (every pair of rows of equal key; two \<open>NaT\<close> keys are equal) and
  sorted by date, \<open>NaT\<close> last.
\<close>

definition to_datetime_col :: "('d \<Rightarrow> int option) \<Rightarrow> ('d \<times> 'a) list \<Rightarrow> (int option \<times> 'a) list" where
  "to_datetime_col to_dt df = map (\<lambda>(d, a). (to_dt d, a)) df"

definition merge_inner :: "('k \<times> 'a) list \<Rightarrow> ('k \<times> 'b) list \<Rightarrow> ('k \<times> 'a \<times> 'b) list" where
  "merge_inner left right =
     concat (map (\<lambda>(k, a). map (\<lambda>(k', b). (k, a, b)) (filter (\<lambda>(k', b). k' = k) right)) left)"

definition date_key :: "int option \<Rightarrow> nat \<times> int" where
  "date_key d = (case d of None \<Rightarrow> (1, 0) | Some ts \<Rightarrow> (0, ts))"

definition gli_merge :: "('d \<Rightarrow> int option) \<Rightarrow> ('d \<times> 'a) list \<Rightarrow> ('d \<times> 'b) list
    \<Rightarrow> (int option \<times> 'a \<times> 'b) list" where
  "gli_merge to_dt net gcb =
     sort_key (\<lambda>r. date_key (fst r))
       (merge_inner (to_datetime_col to_dt net) (to_datetime_col to_dt gcb))"


section \<open>Properties\<close>

subsection \<open>Transition-matrix smoothing\<close>

lemma sum_list_pos_real:
  fixes xs :: "real list"
  assumes "xs \<noteq> []" and "\<forall>x \<in> set xs. 0 < x"
  shows "0 < sum_list xs"
  using assms by (induction xs) (auto intro: add_pos_nonneg sum_list_nonneg less_imp_le)

lemma sum_list_divide_const:
  fixes xs :: "real list"
  shows "sum_list (map (\<lambda>x. x / c) xs) = sum_list xs / c"
  by (induction xs) (simp_all add: add_divide_distrib)

lemma normalize_row_sum:
  fixes row :: "real list"
  assumes "sum_list row \<noteq> 0"
  shows "sum_list (map (\<lambda>x. x / sum_list row) row) = 1"
  using assms by (simp add: sum_list_divide_const)

text \<open>
  C2. After \<open>_smooth_transmat\<close> with a pseudocount \<open>eps > 0\<close>, for every K-by-K input
  matrix with non-negative entries and positive row sums (exact zeros allowed), the result
  is again K-by-K, every entry is strictly greater than 0 and every row sums to 1 within
  1e-6 (in exact arithmetic: to 1).
\<close>

theorem smooth_transmat_positive_stochastic:
  fixes model :: "'p hmm"
  assumes eps: "0 < eps"
    and square: "\<forall>row \<in> set (transmat model). length row = length (transmat model)"
    and nonneg: "\<forall>row \<in> set (transmat model). \<forall>x \<in> set row. 0 \<le> x"
    and rowsum: "\<forall>row \<in> set (transmat model). 0 < sum_list row"
  shows "length (transmat (smooth_transmat model eps)) = length (transmat model)
    \<and> (\<forall>row \<in> set (transmat (smooth_transmat model eps)).
          length row = length (transmat model)
        \<and> (\<forall>x \<in> set row. 0 < x)
        \<and> \<bar>sum_list row - 1\<bar> \<le> 1 / 10 ^ 6)"
proof -
  let ?T = "transmat model"
  have len: "length (transmat (smooth_transmat model eps)) = length ?T"
    by (simp add: smooth_transmat_def normalize_rows_def add_eps_def)
  have rows: "length row = length ?T \<and> (\<forall>x \<in> set row. 0 < x) \<and> \<bar>sum_list row - 1\<bar> \<le> 1 / 10 ^ 6"
    if r: "row \<in> set (transmat (smooth_transmat model eps))" for row
  proof -
    from r obtain raw where raw: "raw \<in> set ?T"
      and row: "row = map (\<lambda>x. x / sum_list (map (\<lambda>x. x + eps) raw)) (map (\<lambda>x. x + eps) raw)"
      by (auto simp: smooth_transmat_def normalize_rows_def add_eps_def)
    let ?s = "map (\<lambda>x. x + eps) raw"
    from raw rowsum have "raw \<noteq> []" by fastforce
    hence ne: "?s \<noteq> []" by simp
    have pos: "\<forall>x \<in> set ?s. 0 < x"
      using raw nonneg eps by (auto intro: add_nonneg_pos)
    have spos: "0 < sum_list ?s" by (rule sum_list_pos_real [OF ne pos])
    have "\<forall>x \<in> set row. 0 < x"
      unfolding row using pos spos by (auto intro: divide_pos_pos)
    moreover have "sum_list row = 1"
      unfolding row using spos by (intro normalize_row_sum) simp
    moreover have "length row = length ?T"
      unfolding row using raw square by simp
    ultimately show ?thesis by simp
  qed
  from len rows show ?thesis by blast
qed

theorem smooth_transmat_positive_stochastic_witness:
  "transmat (smooth_transmat \<lparr>args = GaussianHMM 2 42 (1/100), transmat = [[1, 0], [1/2, 1/2]], params = ()\<rparr> (1/1000))
     = [[1001/1002, 1/1002], [1/2, 1/2]]
   \<and> \<bar>sum_list [1001/1002, 1/1002 :: real] - 1\<bar> \<le> 1 / 10 ^ 6"
  using smooth_transmat_positive_stochastic
    [of "1/1000" "\<lparr>args = GaussianHMM 2 42 (1/100), transmat = [[1, 0], [1/2, 1/2]], params = ()\<rparr>"]
  by (simp add: smooth_transmat_def normalize_rows_def add_eps_def)

subsection \<open>Random restarts\<close>

lemma fgt_trans: "fgt a b \<Longrightarrow> fgt b c \<Longrightarrow> fgt a c"
  by (cases a; cases b; cases c) auto

lemma fgt_finite_le:
  "isfinite x \<Longrightarrow> \<not> fgt x b \<Longrightarrow> fgt s b \<Longrightarrow> fgt s x"
  by (cases x; cases b; cases s) auto

lemma fit_loop_best:
  assumes "\<forall>s \<in> set xs. isfinite (score (restart fit Xs ncomp mc ts s) Xs)"
  shows "(\<forall>s \<in> set xs. \<not> fgt (score (restart fit Xs ncomp mc ts s) Xs) bs)
          \<and> fit_loop fit score Xs ncomp mc ts xs (bm, bs) = (bm, bs)
       \<or> (\<exists>pre s post. xs = pre @ s # post
          \<and> fit_loop fit score Xs ncomp mc ts xs (bm, bs)
              = (Some (restart fit Xs ncomp mc ts s), score (restart fit Xs ncomp mc ts s) Xs)
          \<and> fgt (score (restart fit Xs ncomp mc ts s) Xs) bs
          \<and> (\<forall>s' \<in> set pre. fgt (score (restart fit Xs ncomp mc ts s) Xs)
                                  (score (restart fit Xs ncomp mc ts s') Xs))
          \<and> (\<forall>s' \<in> set post. \<not> fgt (score (restart fit Xs ncomp mc ts s') Xs)
                                     (score (restart fit Xs ncomp mc ts s) Xs)))"
  using assms
proof (induction xs arbitrary: bm bs)
  case Nil
  then show ?case by simp
next
  case (Cons x xs)
  let ?sc = "\<lambda>s. score (restart fit Xs ncomp mc ts s) Xs"
  let ?m = "\<lambda>s. restart fit Xs ncomp mc ts s"
  from Cons.prems have fin: "\<forall>s \<in> set xs. isfinite (?sc s)" and finx: "isfinite (?sc x)" by auto
  show ?case
  proof (cases "fgt (?sc x) bs")
    case True
    from Cons.IH [OF fin, where bm = "Some (?m x)" and bs = "?sc x"]
    show ?thesis
    proof (elim disjE conjE exE)
      assume a: "\<forall>s\<in>set xs. \<not> fgt (?sc s) (?sc x)"
        and b: "fit_loop fit score Xs ncomp mc ts xs (Some (?m x), ?sc x) = (Some (?m x), ?sc x)"
      have "x # xs = [] @ x # xs" by simp
      with a b True show ?thesis
        by (intro disjI2 exI [of _ "[]"] exI [of _ x] exI [of _ xs]) (simp add: Let_def)
    next
      fix pre s post
      assume xs: "xs = pre @ s # post"
        and r: "fit_loop fit score Xs ncomp mc ts xs (Some (?m x), ?sc x) = (Some (?m s), ?sc s)"
        and g: "fgt (?sc s) (?sc x)"
        and p: "\<forall>s'\<in>set pre. fgt (?sc s) (?sc s')"
        and q: "\<forall>s'\<in>set post. \<not> fgt (?sc s') (?sc s)"
      from g True have "fgt (?sc s) bs" by (rule fgt_trans)
      with xs r g p q True show ?thesis
        by (intro disjI2 exI [of _ "x # pre"] exI [of _ s] exI [of _ post]) (simp add: Let_def)
    qed
  next
    case False
    from Cons.IH [OF fin, where bm = bm and bs = bs]
    show ?thesis
    proof (elim disjE conjE exE)
      assume a: "\<forall>s\<in>set xs. \<not> fgt (?sc s) bs"
        and b: "fit_loop fit score Xs ncomp mc ts xs (bm, bs) = (bm, bs)"
      with False show ?thesis by (intro disjI1) (simp add: Let_def)
    next
      fix pre s post
      assume xs: "xs = pre @ s # post"
        and r: "fit_loop fit score Xs ncomp mc ts xs (bm, bs) = (Some (?m s), ?sc s)"
        and g: "fgt (?sc s) bs"
        and p: "\<forall>s'\<in>set pre. fgt (?sc s) (?sc s')"
        and q: "\<forall>s'\<in>set post. \<not> fgt (?sc s') (?sc s)"
      from finx False g have "fgt (?sc s) (?sc x)" by (rule fgt_finite_le)
      with xs r g p q False show ?thesis
        by (intro disjI2 exI [of _ "x # pre"] exI [of _ s] exI [of _ post]) (simp add: Let_def)
    qed
  qed
qed

lemma fgt_irrefl: "\<not> fgt a a"
  by (cases a) auto

lemma seeds_props: "length (seeds n) = n \<and> distinct (seeds n) \<and> sorted_wrt (<) (seeds n)"
  by (simp add: seeds_def sorted_wrt_upt)

lemma fit_best_hmm_first_maximum_restart:
  fixes score :: "'p hmm \<Rightarrow> 'x \<Rightarrow> fl"
  assumes n: "0 < n_tries"
    and fin: "\<forall>s \<in> set (seeds n_tries). isfinite (score (restart fit Xs ncomp mc ts s) Xs)"
  shows "length (seeds n_tries) = n_tries \<and> distinct (seeds n_tries)
    \<and> (\<exists>s. s \<in> set (seeds n_tries)
      \<and> fit_best_hmm fit score Xs ncomp n_tries mc ts = Inr (restart fit Xs ncomp mc ts s)
      \<and> args (restart fit Xs ncomp mc ts s) = (GaussianHMM ncomp 42 mc)\<lparr>random_state := s\<rparr>
      \<and> (\<forall>s' \<in> set (seeds n_tries).
            \<not> fgt (score (restart fit Xs ncomp mc ts s') Xs) (score (restart fit Xs ncomp mc ts s) Xs))
      \<and> (\<forall>s' \<in> set (seeds n_tries). s' < s \<longrightarrow>
            fgt (score (restart fit Xs ncomp mc ts s) Xs) (score (restart fit Xs ncomp mc ts s') Xs)))"
proof -
  let ?sc = "\<lambda>s. score (restart fit Xs ncomp mc ts s) Xs"
  let ?m = "\<lambda>s. restart fit Xs ncomp mc ts s"
  from n have "42 \<in> set (seeds n_tries)" by (simp add: seeds_def)
  moreover from this fin have "fgt (?sc 42) NInf" by (cases "?sc 42") auto
  ultimately have "\<not> (\<forall>s \<in> set (seeds n_tries). \<not> fgt (?sc s) NInf)" by blast
  with fit_loop_best [where score = score and fit = fit and Xs = Xs and ncomp = ncomp and mc = mc
      and ts = ts and xs = "seeds n_tries" and bs = NInf and bm = None] fin
  obtain pre s post where xs: "seeds n_tries = pre @ s # post"
    and r: "fit_loop fit score Xs ncomp mc ts (seeds n_tries) (None, NInf) = (Some (?m s), ?sc s)"
    and p: "\<forall>s'\<in>set pre. fgt (?sc s) (?sc s')"
    and q: "\<forall>s'\<in>set post. \<not> fgt (?sc s') (?sc s)"
    by blast
  have srt: "sorted_wrt (<) (pre @ s # post)" using seeds_props [of n_tries] xs by simp
  have mem: "s \<in> set (seeds n_tries)" using xs by simp
  have res: "fit_best_hmm fit score Xs ncomp n_tries mc ts = Inr (?m s)"
    by (simp add: fit_best_hmm_def r)
  have ar: "args (?m s) = (GaussianHMM ncomp 42 mc)\<lparr>random_state := s\<rparr>"
    by (simp add: restart_def smooth_transmat_def fitted_def GaussianHMM_def)
  have mx: "\<not> fgt (?sc s') (?sc s)" if "s' \<in> set (seeds n_tries)" for s'
  proof -
    from that xs have "s' \<in> set pre \<or> s' = s \<or> s' \<in> set post" by auto
    then show ?thesis
    proof (elim disjE)
      assume "s' \<in> set pre"
      with p have g: "fgt (?sc s) (?sc s')" by blast
      show ?thesis
      proof
        assume "fgt (?sc s') (?sc s)"
        with g have "fgt (?sc s) (?sc s)" by (rule fgt_trans)
        then show False by (simp add: fgt_irrefl)
      qed
    next
      assume "s' = s" then show ?thesis by (simp add: fgt_irrefl)
    next
      assume "s' \<in> set post" with q show ?thesis by blast
    qed
  qed
  have first: "fgt (?sc s) (?sc s')" if "s' \<in> set (seeds n_tries)" and "s' < s" for s'
  proof -
    from that(1) xs have "s' \<in> set pre \<or> s' = s \<or> s' \<in> set post" by auto
    moreover from srt have "\<forall>y \<in> set post. s < y" by (auto simp: sorted_wrt_append)
    ultimately have "s' \<in> set pre" using that(2) by auto
    with p show ?thesis by blast
  qed
  from mem res ar mx first
  have "\<exists>s. s \<in> set (seeds n_tries)
      \<and> fit_best_hmm fit score Xs ncomp n_tries mc ts = Inr (?m s)
      \<and> args (?m s) = (GaussianHMM ncomp 42 mc)\<lparr>random_state := s\<rparr>
      \<and> (\<forall>s' \<in> set (seeds n_tries). \<not> fgt (?sc s') (?sc s))
      \<and> (\<forall>s' \<in> set (seeds n_tries). s' < s \<longrightarrow> fgt (?sc s) (?sc s'))"
    by blast
  with seeds_props [of n_tries] show ?thesis by simp
qed

text \<open>
  C8. \<open>_fit_best_hmm\<close> runs one restart per seed of \<open>range(42, 42 + n_tries)\<close> (10 of them by
  default and in \<open>main\<close>): the seeds are 42, 43, ... , all distinct, and the restart of seed
  \<open>s\<close> is the fit of a model constructed with \<open>random_state = s\<close> and otherwise the same
  arguments for every seed, with its transition matrix smoothed. Each is scored by \<open>score\<close>
  and, the scores being finite, the function returns exactly one of them: one whose score no
  other restart exceeds and which every restart of an earlier seed falls strictly short of,
  so a tie keeps the first-seen fit.
\<close>

theorem fit_best_hmm_keeps_first_maximum:
  fixes score :: "'p hmm \<Rightarrow> 'x \<Rightarrow> fl" and fit :: "hmm_args \<Rightarrow> 'x \<Rightarrow> real list list \<times> 'p"
    and ncomp :: nat and mc :: real and Xs :: 'x and ts :: real
  defines "hp \<equiv> \<lambda>s. \<lparr>n_components = ncomp, covariance_type = ''diag'', n_iter = 500,
      tol = 1 / 10 ^ 4, random_state = s, min_covar = mc\<rparr>"
  defines "cand \<equiv> \<lambda>s. smooth_transmat
      \<lparr>args = hp s, transmat = fst (fit (hp s) Xs), params = snd (fit (hp s) Xs)\<rparr> ts"
  assumes n: "0 < n_tries"
    and fin: "\<forall>s. 42 \<le> s \<and> s < 42 + n_tries \<longrightarrow> isfinite (score (cand s) Xs)"
  shows "length (seeds n_tries) = n_tries \<and> distinct (seeds n_tries)
    \<and> (\<forall>i < n_tries. seeds n_tries ! i = 42 + i)
    \<and> (\<forall>s. restart fit Xs ncomp mc ts s = cand s)
    \<and> (\<forall>s. args (cand s) = hp s)
    \<and> (\<exists>s. 42 \<le> s \<and> s < 42 + n_tries
      \<and> fit_best_hmm fit score Xs ncomp n_tries mc ts = Inr (cand s)
      \<and> (\<forall>s'. 42 \<le> s' \<and> s' < 42 + n_tries \<longrightarrow> \<not> fgt (score (cand s') Xs) (score (cand s) Xs))
      \<and> (\<forall>s'. 42 \<le> s' \<and> s' < s \<longrightarrow> fgt (score (cand s) Xs) (score (cand s') Xs)))"
proof -
  have rs: "restart fit Xs ncomp mc ts s = cand s" for s
    by (simp add: restart_def fitted_def GaussianHMM_def cand_def hp_def)
  have ar: "args (cand s) = hp s" for s
    by (simp add: cand_def smooth_transmat_def)
  have mem: "s \<in> set (seeds n_tries) \<longleftrightarrow> 42 \<le> s \<and> s < 42 + n_tries" for s
    by (simp add: seeds_def)
  have sd: "\<forall>i < n_tries. seeds n_tries ! i = 42 + i"
    by (simp add: seeds_def)
  from fin have fin': "\<forall>s \<in> set (seeds n_tries). isfinite (score (restart fit Xs ncomp mc ts s) Xs)"
    by (simp add: mem rs)
  from n fin' fit_best_hmm_first_maximum_restart [where score = score and fit = fit and Xs = Xs
      and ncomp = ncomp and mc = mc and ts = ts and n_tries = n_tries]
  obtain s where s: "s \<in> set (seeds n_tries)"
    and res: "fit_best_hmm fit score Xs ncomp n_tries mc ts = Inr (restart fit Xs ncomp mc ts s)"
    and mx: "\<forall>s' \<in> set (seeds n_tries).
            \<not> fgt (score (restart fit Xs ncomp mc ts s') Xs) (score (restart fit Xs ncomp mc ts s) Xs)"
    and first: "\<forall>s' \<in> set (seeds n_tries). s' < s \<longrightarrow>
            fgt (score (restart fit Xs ncomp mc ts s) Xs) (score (restart fit Xs ncomp mc ts s') Xs)"
    by blast
  have a: "42 \<le> s \<and> s < 42 + n_tries" using s by (simp add: mem)
  have b: "fit_best_hmm fit score Xs ncomp n_tries mc ts = Inr (cand s)" using res by (simp add: rs)
  have c: "\<forall>s'. 42 \<le> s' \<and> s' < 42 + n_tries \<longrightarrow> \<not> fgt (score (cand s') Xs) (score (cand s) Xs)"
    using mx by (simp add: mem rs)
  have d: "\<forall>s'. 42 \<le> s' \<and> s' < s \<longrightarrow> fgt (score (cand s) Xs) (score (cand s') Xs)"
  proof (intro allI impI)
    fix s' assume "42 \<le> s' \<and> s' < s"
    with a have "s' \<in> set (seeds n_tries)" and "s' < s" by (simp_all add: mem)
    with first show "fgt (score (cand s) Xs) (score (cand s') Xs)" by (simp add: rs)
  qed
  from a b c d have ex: "\<exists>s. 42 \<le> s \<and> s < 42 + n_tries
      \<and> fit_best_hmm fit score Xs ncomp n_tries mc ts = Inr (cand s)
      \<and> (\<forall>s'. 42 \<le> s' \<and> s' < 42 + n_tries \<longrightarrow> \<not> fgt (score (cand s') Xs) (score (cand s) Xs))
      \<and> (\<forall>s'. 42 \<le> s' \<and> s' < s \<longrightarrow> fgt (score (cand s) Xs) (score (cand s') Xs))"
    by blast
  from rs have rs': "\<forall>s. restart fit Xs ncomp mc ts s = cand s" by blast
  from ar have ar': "\<forall>s. args (cand s) = hp s" by blast
  from seeds_props [of n_tries] have l: "length (seeds n_tries) = n_tries" and di: "distinct (seeds n_tries)"
    by simp_all
  show ?thesis by (intro conjI l di sd rs' ar' ex)
qed

theorem fit_best_hmm_keeps_first_maximum_witness:
  "seeds 10 = [42, 43, 44, 45, 46, 47, 48, 49, 50, 51]
   \<and> restart (\<lambda>a Xs. ([[1, 0], [0, 1]], random_state a)) () 3 (1/100) (1/1000) 51
       = \<lparr>args = \<lparr>n_components = 3, covariance_type = ''diag'', n_iter = 500, tol = 1 / 10 ^ 4,
                  random_state = 51, min_covar = 1/100\<rparr>,
          transmat = [[1001/1002, 1/1002], [1/1002, 1001/1002]], params = 51\<rparr>
   \<and> fit_best_hmm (\<lambda>a Xs. ([[1, 0], [0, 1]], random_state a))
         (\<lambda>m Xs. Fin (real (params m mod 3))) () 3 10 (1/100) (1/1000)
       = Inr \<lparr>args = \<lparr>n_components = 3, covariance_type = ''diag'', n_iter = 500, tol = 1 / 10 ^ 4,
                      random_state = 44, min_covar = 1/100\<rparr>,
              transmat = [[1001/1002, 1/1002], [1/1002, 1001/1002]], params = 44\<rparr>"
  using fit_best_hmm_keeps_first_maximum
    [where n_tries = 10 and fit = "\<lambda>a Xs. ([[1, 0], [0, 1]], random_state a)"
       and score = "\<lambda>m Xs. Fin (real (params m mod 3))" and Xs = "()" and ncomp = 3
       and mc = "1/100" and ts = "1/1000"]
  by (simp add: fit_best_hmm_def seeds_def restart_def fitted_def GaussianHMM_def
      smooth_transmat_def normalize_rows_def add_eps_def
      upt_rec [of 42] upt_rec [of 43] upt_rec [of 44] upt_rec [of 45]
      upt_rec [of 46] upt_rec [of 47] upt_rec [of 48] upt_rec [of 49] upt_rec [of 50]
      upt_rec [of 51] upt_rec [of 52])

subsection \<open>Canonical relabeling\<close>

text \<open>
  C1. The static backend at a fit of three rows whose raw states 0, 1, 2 have expansiveness
  scores 0, 1, 2: the mapping sends raw 0 to canonical 2, and the hard label of the first row
  is 2, but the written posterior of that row is still in raw order (its component 0 is the
  probability 9/10 of raw state 0, which is canonical state 2). The sequential backend on
  the same fit reorders the posterior (component 2 of the first row is 9/10) and permutes
  the transition matrix.
\<close>

theorem gmm_posterior_left_in_raw_order:
  "gmm_relabel [0, 1, 2] [0, 0, 0] [0, 1, 2] [[9/10, 1/10, 0], [1/5, 7/10, 1/10], [0, 1/10, 9/10]]
     = Inr \<lparr>gmm_regime = [Some 2, Some 1, Some 0],
            regime_p = [[9/10, 1/10, 0], [1/5, 7/10, 1/10], [0, 1/10, 9/10]]\<rparr>
   \<and> hmm_relabel [0, 1, 2] [0, 0, 0] [0, 1, 2] 3
         [[9/10, 1/10, 0], [1/5, 7/10, 1/10], [0, 1/10, 9/10]]
         [[1/2, 1/4, 1/4], [1/10, 1/5, 7/10], [3/10, 3/10, 2/5]]
     = Inr \<lparr>regime = [2, 1, 0],
            p_regime = [[0, 1/10, 9/10], [1/10, 7/10, 1/5], [9/10, 1/10, 0]],
            trans_regime = [[2/5, 3/10, 3/10], [7/10, 1/5, 1/10], [1/4, 1/4, 1/2]]\<rparr>"
  by (simp add: gmm_relabel_def hmm_relabel_def order_states_by_expansiveness_def
      state_order_def group_keys_def expansiveness_def group_mean_def map_states_def
      dict_of_def lookup_key_def ix_select_def Let_def upt_conv_Cons numeral_3_eq_3)

lemma state_order_props:
  "set (state_order netliq gcb states) = set states"
  "distinct (state_order netliq gcb states)"
  "length (state_order netliq gcb states) = length (remdups states)"
  by (simp_all add: state_order_def group_keys_def)

lemma enumerate_swap: "map (\<lambda>(new, old). (old, new)) (enumerate 0 order) = zip order [0 ..< length order]"
  by (simp add: enumerate_eq_zip zip_commute [of order])

lemma dict_of_distinct:
  assumes "distinct (map fst items)"
  shows "dict_of items = map_of items"
proof -
  have "distinct (map fst (rev items))" using assms by (simp add: rev_map [symmetric])
  moreover have "set (rev items) = set items" by simp
  ultimately show ?thesis unfolding dict_of_def using assms by (simp add: map_of_inject_set)
qed

lemma dict_of_zip:
  assumes "distinct order"
  shows "dict_of (zip order ys) = map_of (zip order ys)"
  using assms by (intro dict_of_distinct) (simp add: map_fst_zip_take)

lemma mapping_None:
  "dict_of (order_states_by_expansiveness netliq gcb states) k = None \<longleftrightarrow> k \<notin> set states"
  by (simp add: order_states_by_expansiveness_def enumerate_swap dict_of_zip state_order_props
      map_of_zip_is_None)

lemma mapping_Some_less:
  assumes "dict_of (order_states_by_expansiveness netliq gcb states) k = Some v"
  shows "v < length (remdups states)"
proof -
  let ?o = "state_order netliq gcb states"
  from assms have "map_of (zip ?o [0 ..< length ?o]) k = Some v"
    by (simp add: order_states_by_expansiveness_def enumerate_swap dict_of_zip state_order_props)
  then have "(k, v) \<in> set (zip ?o [0 ..< length ?o])" by (rule map_of_SomeD)
  then have "v \<in> set [0 ..< length ?o]" by (rule set_zip_rightD)
  then show ?thesis by (simp add: state_order_props)
qed

lemma those_map_Some:
  "(\<forall>x \<in> set xs. f x \<noteq> None) \<Longrightarrow> \<exists>ys. those (map f xs) = Some ys \<and> length ys = length xs \<and> (\<forall>i < length xs. f (xs ! i) = Some (ys ! i))"
proof (induction xs)
  case Nil
  then show ?case by simp
next
  case (Cons x xs)
  then obtain ys where ys: "those (map f xs) = Some ys" "length ys = length xs"
    "\<forall>i < length xs. f (xs ! i) = Some (ys ! i)" by auto
  from Cons.prems obtain y where y: "f x = Some y" by auto
  have "\<forall>i < length (x # xs). f ((x # xs) ! i) = Some ((y # ys) ! i)"
    using ys(3) y by (auto simp: nth_Cons split: nat.splits)
  with ys y show ?case by auto
qed

lemma reorder_post_KeyError:
  assumes "\<exists>k \<in> set xs. dict_of mapping k = None"
    and "\<forall>k v. dict_of mapping k = Some v \<longrightarrow> v < K"
  shows "reorder_post mapping K post xs p = Inl KeyError"
  using assms
proof (induction xs arbitrary: p)
  case Nil
  then show ?case by simp
next
  case (Cons x xs)
  show ?case
  proof (cases "dict_of mapping x")
    case None
    then show ?thesis by simp
  next
    case (Some v)
    with Cons.prems have "v < K" and "\<exists>k \<in> set xs. dict_of mapping k = None" by auto
    with Some Cons.IH [OF _ Cons.prems(2)] show ?thesis by simp
  qed
qed

lemma missing_state:
  assumes "length (remdups states) < K"
  shows "\<exists>k \<in> set [0 ..< K]. k \<notin> set states"
proof (rule ccontr)
  assume "\<not> ?thesis"
  then have "{0 ..< K} \<subseteq> set states" by auto
  then have "card {0 ..< K} \<le> card (set states)" by (intro card_mono) auto
  with assms show False by (simp add: card_set)
qed

text \<open>
  C3, as the code has it. When fewer than \<open>K\<close> distinct raw states are observed, the
  sequential backend fails: the loop over \<open>range(K)\<close> that reorders the posterior raises
  \<open>KeyError\<close> at the first unobserved state. The static backend makes no such access: it
  returns a table, every row labelled, with labels below the number of observed states.
\<close>

theorem degenerate_fit:
  assumes "length (remdups states) < K"
  shows "hmm_relabel netliq gcb states K post trans_raw = Inl KeyError
    \<and> (list_all (\<lambda>row. 3 \<le> length row) probs \<longrightarrow>
         (\<exists>out. gmm_relabel netliq gcb states probs = Inr out
            \<and> length (gmm_regime out) = length states
            \<and> list_all (\<lambda>l. \<exists>c. l = Some c \<and> c < length (remdups states)) (gmm_regime out)))"
proof -
  let ?mp = "order_states_by_expansiveness netliq gcb states"
  have all: "\<forall>s \<in> set states. dict_of ?mp s \<noteq> None" by (simp add: mapping_None)
  from those_map_Some [OF this] obtain reg where reg: "those (map_states ?mp states) = Some reg"
    by (auto simp: map_states_def)
  from missing_state [OF assms] have "\<exists>k \<in> set [0 ..< K]. dict_of ?mp k = None"
    by (simp add: mapping_None)
  moreover have "\<forall>k v. dict_of ?mp k = Some v \<longrightarrow> v < K"
    using mapping_Some_less assms by (metis less_trans)
  ultimately have "reorder_post ?mp K post [0 ..< K] (map (\<lambda>row. map (\<lambda>_. 0) row) post) = Inl KeyError"
    by (rule reorder_post_KeyError)
  with reg have hmm: "hmm_relabel netliq gcb states K post trans_raw = Inl KeyError"
    by (simp add: hmm_relabel_def Let_def)
  have gmm: "\<exists>out. gmm_relabel netliq gcb states probs = Inr out
            \<and> length (gmm_regime out) = length states
            \<and> list_all (\<lambda>l. \<exists>c. l = Some c \<and> c < length (remdups states)) (gmm_regime out)"
    if "list_all (\<lambda>row. 3 \<le> length row) probs"
  proof -
    have mp: "map (\<lambda>(new, old). (old, new)) (enumerate 0 (state_order netliq gcb states)) = ?mp"
      by (simp add: order_states_by_expansiveness_def)
    have "\<exists>c. dict_of ?mp s = Some c \<and> c < length (remdups states)" if "s \<in> set states" for s
      using that all mapping_Some_less by fastforce
    then have "list_all (\<lambda>l. \<exists>c. l = Some c \<and> c < length (remdups states)) (map_states ?mp states)"
      by (simp add: map_states_def list_all_iff)
    with that show ?thesis
      by (simp add: gmm_relabel_def Let_def mp map_states_def)
  qed
  from hmm gmm show ?thesis by blast
qed


theorem degenerate_fit_witness:
  "length (remdups [0, 0, 1, 1 :: nat]) < 3
   \<and> hmm_relabel [1, 2, 0, 0] [0, 0, 0, 0] [0, 0, 1, 1] 3
        [[1, 0, 0], [1, 0, 0], [0, 1, 0], [0, 1, 0]] [[1/2, 1/2, 0], [1/2, 1/2, 0], [1/3, 1/3, 1/3]]
      = Inl KeyError"
  using degenerate_fit [of "[0, 0, 1, 1]" 3 "[1, 2, 0, 0]" "[0, 0, 0, 0]"
      "[[1, 0, 0], [1, 0, 0], [0, 1, 0], [0, 1, 0]]" "[[1/2, 1/2, 0], [1/2, 1/2, 0], [1/3, 1/3, 1/3]]" "[]"]
  by simp

text \<open>
  C3 as stated fails on the static backend: with only the raw states 0 and 1 observed
  (two of \<open>K = 3\<close>) it returns a table carrying the two labels 0 and 1, and no error.
\<close>

theorem gmm_degenerate_fit_counterexample:
  "length (remdups [0, 0, 1, 1 :: nat]) < 3
   \<and> gmm_relabel [1, 2, 0, 0] [0, 0, 0, 0] [0, 0, 1, 1]
        [[1, 0, 0], [1, 0, 0], [0, 1, 0], [0, 1, 0]]
      = Inr \<lparr>gmm_regime = [Some 0, Some 0, Some 1, Some 1],
             regime_p = [[1, 0, 0], [1, 0, 0], [0, 1, 0], [0, 1, 0]]\<rparr>"
  by (simp add: gmm_relabel_def state_order_def group_keys_def expansiveness_def group_mean_def
      map_states_def dict_of_def)


subsection \<open>Percent change\<close>

lemma fsub_NaN [simp]: "fsub NaN x = NaN" "fsub x NaN = NaN"
  by (cases x; simp)+

lemma fdiv_NaN [simp]: "fdiv NaN x = NaN" "fdiv x NaN = NaN"
  by (cases x; simp)+

lemma length_pad_from: "length (pad_from p xs) = length xs"
  by (induction xs arbitrary: p) auto

lemma pad_from_id: "list_all (\<lambda>x. \<not> snan x) xs \<Longrightarrow> pad_from p xs = xs"
  by (induction xs arbitrary: p) auto

lemma length_pct_data: "length (pct_data pad s) = length s"
  by (simp add: pct_data_def length_pad_from)

lemma shift_nth: "t < length xs \<Longrightarrow> shift k xs ! t = (if t < k then Val NaN else xs ! (t - k))"
  by (auto simp: shift_def nth_append min_def)

lemma length_shift: "length (shift k xs) = length xs"
  by (auto simp: shift_def min_def)

lemma pct_change_nth:
  "t < length s \<Longrightarrow>
     pct_change pad s k ! t =
       ssub (sdiv (pct_data pad s ! t) (if t < k then Val NaN else pct_data pad s ! (t - k)))
            (Val (Fin 1))"
  by (simp add: pct_change_def Let_def length_pct_data length_shift shift_nth)

lemma snan_iff: "snan x \<longleftrightarrow> x = Val NaN"
  by (cases x rule: snan.cases) simp_all

lemma pct_missing: "snan x \<or> snan y \<Longrightarrow> ssub (sdiv x y) (Val (Fin 1)) = Val NaN"
  by (auto simp: sdiv_def ssub_def)

lemma num_Some_cases:
  assumes "num x = Some a"
  obtains "x = Val (Fin a)" | "x = NegZero" and "a = 0"
  using assms by (cases x rule: num.cases) auto

lemma pct_number:
  assumes "num x = Some a" and "num y = Some b" and "b \<noteq> 0"
  shows "ssub (sdiv x y) (Val (Fin 1)) = Val (Fin ((a - b) / b))"
proof -
  from assms(2,3) have y: "y = Val (Fin b)" by (cases y rule: num.cases) auto
  from assms(1) show ?thesis
  proof (cases rule: num_Some_cases)
    case 1
    with y assms(3) show ?thesis
      by (cases "a = 0") (auto simp: sdiv_def ssub_def sval_def diff_divide_distrib)
  next
    case 2
    with y assms(3) show ?thesis
      by (auto simp: sdiv_def ssub_def sval_def)
  qed
qed

lemma pct_zero_denominator:
  assumes "num x = Some a" and "szero y"
  shows "ssub (sdiv x y) (Val (Fin 1)) =
     (if a = 0 then Val NaN else if sneg x = sneg y then Val PInf else Val NInf)"
proof -
  from assms(2) have ny: "\<not> snan y" "\<not> sinf y" by (cases y rule: szero.cases; simp)+
  from assms(1) show ?thesis
  proof (cases rule: num_Some_cases)
    case 1
    with assms(2) ny show ?thesis
      by (auto simp: sdiv_def ssub_def)
  next
    case 2
    with assms(2) ny show ?thesis
      by (auto simp: sdiv_def ssub_def)
  qed
qed

text \<open>
  C4, as the code has it. \<open>pct_change(k)\<close> never raises and keeps the number of rows. Let
  \<open>d\<close> be the column as pandas divides it: forward-filled first under the default of pandas
  before 3, the column itself from pandas 3, and in either case the column itself when it has
  no missing cell. The result at row \<open>t\<close> is missing when \<open>t < k\<close> or when \<open>d[t-k]\<close> or
  \<open>d[t]\<close> is missing. When \<open>d[t]\<close> is a number \<open>a\<close> and \<open>d[t-k]\<close> a number \<open>b\<close> other than
  zero, it is \<open>(a - b) / b\<close>. When \<open>d[t-k]\<close> is exactly zero, of either sign, it is missing
  only if \<open>a\<close> is zero too: otherwise it is an infinity, plus infinity when \<open>a\<close> and the zero
  have the same sign and minus infinity when they differ.
\<close>

theorem pct_change_rows:
  assumes t: "t < length s"
  shows "length (pct_change pad s k) = length s
    \<and> (list_all (\<lambda>x. \<not> snan x) s \<or> \<not> pad \<longrightarrow> pct_data pad s = s)
    \<and> (t < k \<or> snan (pct_data pad s ! (t - k)) \<or> snan (pct_data pad s ! t) \<longrightarrow>
          pct_change pad s k ! t = Val NaN)
    \<and> (\<forall>a b. k \<le> t \<and> num (pct_data pad s ! t) = Some a \<and> num (pct_data pad s ! (t - k)) = Some b
          \<and> b \<noteq> 0 \<longrightarrow> pct_change pad s k ! t = Val (Fin ((a - b) / b)))
    \<and> (\<forall>a. k \<le> t \<and> num (pct_data pad s ! t) = Some a \<and> szero (pct_data pad s ! (t - k)) \<longrightarrow>
          pct_change pad s k ! t =
            (if a = 0 then Val NaN
             else if sneg (pct_data pad s ! t) = sneg (pct_data pad s ! (t - k)) then Val PInf
             else Val NInf))"
proof -
  let ?d = "pct_data pad s"
  have len: "length (pct_change pad s k) = length s"
    by (simp add: pct_change_def Let_def length_pct_data length_shift)
  have idem: "list_all (\<lambda>x. \<not> snan x) s \<or> \<not> pad \<longrightarrow> ?d = s"
    by (auto simp: pct_data_def pad_from_id)
  have miss: "t < k \<or> snan (?d ! (t - k)) \<or> snan (?d ! t) \<longrightarrow> pct_change pad s k ! t = Val NaN"
  proof
    assume h: "t < k \<or> snan (?d ! (t - k)) \<or> snan (?d ! t)"
    show "pct_change pad s k ! t = Val NaN"
    proof (cases "t < k")
      case True
      with t show ?thesis by (simp add: pct_change_nth pct_missing)
    next
      case False
      with h have "snan (?d ! t) \<or> snan (?d ! (t - k))" by blast
      from pct_missing [OF this] t False show ?thesis by (simp add: pct_change_nth)
    qed
  qed
  have numb: "\<forall>a b. k \<le> t \<and> num (?d ! t) = Some a \<and> num (?d ! (t - k)) = Some b \<and> b \<noteq> 0
      \<longrightarrow> pct_change pad s k ! t = Val (Fin ((a - b) / b))"
  proof (intro allI impI)
    fix a b
    assume h: "k \<le> t \<and> num (?d ! t) = Some a \<and> num (?d ! (t - k)) = Some b \<and> b \<noteq> 0"
    then have "ssub (sdiv (?d ! t) (?d ! (t - k))) (Val (Fin 1)) = Val (Fin ((a - b) / b))"
      by (intro pct_number) simp_all
    with h t show "pct_change pad s k ! t = Val (Fin ((a - b) / b))"
      by (simp add: pct_change_nth)
  qed
  have zero: "\<forall>a. k \<le> t \<and> num (?d ! t) = Some a \<and> szero (?d ! (t - k)) \<longrightarrow>
          pct_change pad s k ! t =
            (if a = 0 then Val NaN
             else if sneg (?d ! t) = sneg (?d ! (t - k)) then Val PInf else Val NInf)"
  proof (intro allI impI)
    fix a
    assume h: "k \<le> t \<and> num (?d ! t) = Some a \<and> szero (?d ! (t - k))"
    then have "ssub (sdiv (?d ! t) (?d ! (t - k))) (Val (Fin 1)) =
        (if a = 0 then Val NaN
         else if sneg (?d ! t) = sneg (?d ! (t - k)) then Val PInf else Val NInf)"
      by (intro pct_zero_denominator) simp_all
    with h t show "pct_change pad s k ! t =
            (if a = 0 then Val NaN
             else if sneg (?d ! t) = sneg (?d ! (t - k)) then Val PInf else Val NInf)"
      by (simp add: pct_change_nth)
  qed
  show ?thesis by (intro conjI len idem miss numb zero)
qed

theorem pct_change_rows_witness:
  "pct_change False [Val (Fin 4), Val (Fin 5), Val (Fin 0), Val (Fin 3), NegZero, Val (Fin 3)] 1 ! 0 = Val NaN
   \<and> pct_change False [Val (Fin 4), Val (Fin 5), Val (Fin 0), Val (Fin 3), NegZero, Val (Fin 3)] 1 ! 1
       = Val (Fin (1 / 4))
   \<and> pct_change False [Val (Fin 4), Val (Fin 5), Val (Fin 0), Val (Fin 3), NegZero, Val (Fin 3)] 1 ! 3
       = Val PInf
   \<and> pct_change True [Val (Fin 4), Val (Fin 5), Val (Fin 0), Val (Fin 3), NegZero, Val (Fin 3)] 1 ! 5
       = Val NInf
   \<and> pct_change False [Val (Fin 4), Val NaN, Val (Fin 5)] 1 ! 2 = Val NaN
   \<and> pct_change True [Val (Fin 4), Val NaN, Val (Fin 5)] 1 ! 2 = Val (Fin (1 / 4))"
  using pct_change_rows [of 0 "[Val (Fin 4), Val (Fin 5), Val (Fin 0), Val (Fin 3), NegZero, Val (Fin 3)]" False 1]
    pct_change_rows [of 1 "[Val (Fin 4), Val (Fin 5), Val (Fin 0), Val (Fin 3), NegZero, Val (Fin 3)]" False 1]
    pct_change_rows [of 3 "[Val (Fin 4), Val (Fin 5), Val (Fin 0), Val (Fin 3), NegZero, Val (Fin 3)]" False 1]
    pct_change_rows [of 5 "[Val (Fin 4), Val (Fin 5), Val (Fin 0), Val (Fin 3), NegZero, Val (Fin 3)]" True 1]
    pct_change_rows [of 2 "[Val (Fin 4), Val NaN, Val (Fin 5)]" False 1]
    pct_change_rows [of 2 "[Val (Fin 4), Val NaN, Val (Fin 5)]" True 1]
  by (simp add: pct_data_def)

text \<open>
  C4 as stated fails: in the column 0, 5 the lag-1 denominator of row 1 is exactly zero and
  the percent change there is plus infinity, not a missing value, with or without the
  forward fill.
\<close>

theorem pct_change_zero_denominator_counterexample:
  "[Val (Fin 0), Val (Fin 5)] ! (1 - 1) = Val (Fin 0)
   \<and> pct_change True [Val (Fin 0), Val (Fin 5)] 1 = [Val NaN, Val PInf]
   \<and> pct_change False [Val (Fin 0), Val (Fin 5)] 1 = [Val NaN, Val PInf]
   \<and> \<not> snan (pct_change False [Val (Fin 0), Val (Fin 5)] 1 ! 1)"
  by (simp add: pct_change_def pct_data_def shift_def sdiv_def ssub_def)

subsection \<open>Rolling z-score\<close>

lemma those_fin_opt: "those (map fin_opt ys) = Some win \<longleftrightarrow> ys = map Fin win"
proof (induction ys arbitrary: win)
  case Nil
  then show ?case by auto
next
  case (Cons y ys)
  show ?case
  proof (cases y)
    case (Fin a)
    with Cons.IH show ?thesis by (cases win) (auto split: option.splits)
  qed (auto)
qed

lemma rolling_apply_nth:
  "t < length xs \<Longrightarrow>
     rolling_apply w f xs ! t = (case window_at w xs t of None \<Rightarrow> NaN | Some win \<Rightarrow> f win)"
  by (simp add: rolling_apply_def)

lemma length_rolling_apply: "length (rolling_apply w f xs) = length xs"
  by (simp add: rolling_apply_def)

lemma window_at_early: "t + 1 < w \<Longrightarrow> window_at w xs t = None"
  by (simp add: window_at_def)

lemma window_at_Some:
  assumes "window_at w xs t = Some win" and "t < length xs"
  shows "0 < w" "w \<le> t + 1" "take w (drop (t + 1 - w) xs) = map Fin win" "length win = w"
    "win \<noteq> []" "xs ! t = Fin (last win)"
proof -
  from assms(1) show w: "0 < w" and le: "w \<le> t + 1"
    by (auto simp: window_at_def split: if_splits)
  from assms(1) w le show tk: "take w (drop (t + 1 - w) xs) = map Fin win"
    by (simp add: window_at_def those_fin_opt)
  from arg_cong [OF tk, of length] assms(2) le show len: "length win = w" by simp
  with w show ne: "win \<noteq> []" by auto
  have "xs ! t = take w (drop (t + 1 - w) xs) ! (w - 1)"
    using w le assms(2) by simp
  also have "\<dots> = Fin (win ! (w - 1))" using tk len w by simp
  also have "win ! (w - 1) = last win" using ne len by (simp add: last_conv_nth)
  finally show "xs ! t = Fin (last win)" .
qed

lemma zscore_nth:
  "t < length s \<Longrightarrow>
     zscore s w ! t =
       fdiv (fsub (s ! t) (rolling_apply w (\<lambda>win. Fin (mean win)) s ! t))
            (rolling_apply w (std 0) s ! t)"
  by (simp add: zscore_def Let_def length_rolling_apply)

lemma zscore_window:
  assumes "window_at w s t = Some win" and "t < length s"
  shows "zscore s w ! t =
     fdiv (Fin (last win - mean win)) (Fin (sqrt ((\<Sum>x\<leftarrow>win. (x - mean win)\<^sup>2) / real w)))"
    and "rolling_apply w (std 0) s ! t = Fin (sqrt ((\<Sum>x\<leftarrow>win. (x - mean win)\<^sup>2) / real w))"
  using window_at_Some [OF assms] assms
  by (simp_all add: zscore_nth rolling_apply_nth std_def)

lemma window_at_constant:
  assumes w: "0 < w" "w \<le> t + 1" and t: "t < length s" and c: "\<forall>i<w. s ! (t - i) = Fin c"
  shows "window_at w s t = Some (replicate w c)"
proof -
  have "take w (drop (t + 1 - w) s) = map Fin (replicate w c)"
  proof (rule nth_equalityI)
    show "length (take w (drop (t + 1 - w) s)) = length (map Fin (replicate w c))"
      using w t by simp
  next
    fix i assume "i < length (take w (drop (t + 1 - w) s))"
    then have i: "i < w" by simp
    have idx: "t + 1 - w + i = t - (w - 1 - i)" using i w by arith
    have "take w (drop (t + 1 - w) s) ! i = s ! (t + 1 - w + i)"
      using i w t by simp
    also note idx
    also have "s ! (t - (w - 1 - i)) = Fin c"
    proof -
      have "w - 1 - i < w" using w by arith
      with c show ?thesis by blast
    qed
    finally show "take w (drop (t + 1 - w) s) ! i = map Fin (replicate w c) ! i"
      using i by simp
  qed
  then have "those (map fin_opt (take w (drop (t + 1 - w) s))) = Some (replicate w c)"
    by (simp only: those_fin_opt)
  with w show ?thesis by (simp add: window_at_def)
qed

lemma mean_replicate: "0 < w \<Longrightarrow> mean (replicate w c) = c"
  by (simp add: mean_def sum_list_replicate)

lemma sumsq_replicate: "(\<Sum>x\<leftarrow>replicate w c. (x - c)\<^sup>2) = (0::real)"
  by (induction w) simp_all

lemma window_at_iff:
  assumes "0 < w" and "t < length s"
  shows "window_at w s t = Some win \<longleftrightarrow> w \<le> t + 1 \<and> take w (drop (t + 1 - w) s) = map Fin win"
  using assms by (auto simp: window_at_def those_fin_opt)

lemma window_at_not_finite:
  assumes "\<not> list_all isfinite (take w (drop (t + 1 - w) s))"
  shows "window_at w s t = None"
proof (cases "window_at w s t")
  case None
  then show ?thesis .
next
  case (Some win)
  then have "take w (drop (t + 1 - w) s) = map Fin win"
    by (auto simp: window_at_def those_fin_opt split: if_splits)
  then have "list_all isfinite (take w (drop (t + 1 - w) s))" by (simp add: list_all_iff)
  with assms show ?thesis by simp
qed

lemma pstd_zero_all_equal:
  fixes win :: "real list"
  assumes "0 < w" and "sqrt ((\<Sum>x\<leftarrow>win. (x - m)\<^sup>2) / real w) = 0" and "x \<in> set win"
  shows "x = m"
proof -
  from assms(1,2) have "(\<Sum>x\<leftarrow>win. (x - m)\<^sup>2) = 0" by simp
  moreover have "\<And>y. y \<in> set (map (\<lambda>x. (x - m)\<^sup>2) win) \<Longrightarrow> 0 \<le> y" by auto
  ultimately have "\<forall>y \<in> set (map (\<lambda>x. (x - m)\<^sup>2) win). y = 0"
    by (simp only: sum_list_nonneg_eq_0_iff)
  with assms(3) have "(x - m)\<^sup>2 = 0" by simp
  then show ?thesis by simp
qed

text \<open>
  C5. For a window \<open>w > 0\<close> and a row \<open>t\<close> of the column. The z-score is missing at the rows
  \<open>0..w-2\<close>. From row \<open>w-1\<close> onward, whenever the trailing \<open>w\<close> cells of the column are
  numbers, the rolling standard deviation is the population one (the root of the sum of
  squared deviations from the window mean divided by \<open>w\<close>, not \<open>w - 1\<close>), and the z-score is
  the deviation of the row from the window mean divided by it, a number, whenever that
  standard deviation is not zero, and missing when it is zero; in particular it is missing
  over a window of one repeated value. A window holding a missing or infinite cell gives a
  missing z-score. \<open>zscore\<close> is total: it never raises.
\<close>

theorem zscore_rows:
  assumes w: "0 < w" and t: "t < length s"
  shows "length (zscore s w) = length s
    \<and> (t + 1 < w \<longrightarrow> zscore s w ! t = NaN)
    \<and> (\<forall>win. window_at w s t = Some win \<longleftrightarrow>
          w \<le> t + 1 \<and> take w (drop (t + 1 - w) s) = map Fin win)
    \<and> (\<forall>win. w \<le> t + 1 \<and> take w (drop (t + 1 - w) s) = map Fin win \<longrightarrow>
          rolling_apply w (std 0) s ! t = Fin (sqrt ((\<Sum>x\<leftarrow>win. (x - mean win)\<^sup>2) / real w))
        \<and> zscore s w ! t =
            (if sqrt ((\<Sum>x\<leftarrow>win. (x - mean win)\<^sup>2) / real w) = 0 then NaN
             else Fin ((last win - mean win) / sqrt ((\<Sum>x\<leftarrow>win. (x - mean win)\<^sup>2) / real w))))
    \<and> (w \<le> t + 1 \<and> \<not> list_all isfinite (take w (drop (t + 1 - w) s)) \<longrightarrow> zscore s w ! t = NaN)
    \<and> (\<forall>sd. rolling_apply w (std 0) s ! t = Fin sd \<and> sd \<noteq> 0 \<longrightarrow> (\<exists>z. zscore s w ! t = Fin z))
    \<and> (\<forall>c. w \<le> t + 1 \<and> (\<forall>i<w. s ! (t - i) = Fin c) \<longrightarrow> zscore s w ! t = NaN)"
proof -
  have len: "length (zscore s w) = length s"
    by (simp add: zscore_def Let_def length_rolling_apply)
  have early: "t + 1 < w \<longrightarrow> zscore s w ! t = NaN"
    using t by (simp add: zscore_nth rolling_apply_nth window_at_early)
  have wiff: "\<forall>win. window_at w s t = Some win \<longleftrightarrow>
          w \<le> t + 1 \<and> take w (drop (t + 1 - w) s) = map Fin win"
    by (rule allI) (rule window_at_iff [OF w t])
  have numeric: "rolling_apply w (std 0) s ! t = Fin (sqrt ((\<Sum>x\<leftarrow>win. (x - mean win)\<^sup>2) / real w))
        \<and> zscore s w ! t =
            (if sqrt ((\<Sum>x\<leftarrow>win. (x - mean win)\<^sup>2) / real w) = 0 then NaN
             else Fin ((last win - mean win) / sqrt ((\<Sum>x\<leftarrow>win. (x - mean win)\<^sup>2) / real w)))"
    if h: "w \<le> t + 1 \<and> take w (drop (t + 1 - w) s) = map Fin win" for win
  proof -
    from h have win: "window_at w s t = Some win" by (simp only: window_at_iff [OF w t])
    let ?sd = "sqrt ((\<Sum>x\<leftarrow>win. (x - mean win)\<^sup>2) / real w)"
    note z = zscore_window [OF win t]
    from window_at_Some(5) [OF win t] have mem: "last win \<in> set win" by simp
    have "zscore s w ! t = (if ?sd = 0 then NaN else Fin ((last win - mean win) / ?sd))"
    proof (cases "?sd = 0")
      case True
      from pstd_zero_all_equal [OF w True mem] have "last win - mean win = 0" by simp
      with z(1) True show ?thesis by simp
    next
      case False
      with z(1) show ?thesis by simp
    qed
    with z(2) show ?thesis by simp
  qed
  have broken: "w \<le> t + 1 \<and> \<not> list_all isfinite (take w (drop (t + 1 - w) s)) \<longrightarrow> zscore s w ! t = NaN"
  proof
    assume "w \<le> t + 1 \<and> \<not> list_all isfinite (take w (drop (t + 1 - w) s))"
    then have "window_at w s t = None" by (intro window_at_not_finite) simp
    with t show "zscore s w ! t = NaN" by (simp add: zscore_nth rolling_apply_nth)
  qed
  have defined: "\<exists>z. zscore s w ! t = Fin z"
    if sd: "rolling_apply w (std 0) s ! t = Fin sd" and nz: "sd \<noteq> 0" for sd
  proof (cases "window_at w s t")
    case None
    with sd t show ?thesis by (simp add: rolling_apply_nth)
  next
    case (Some win)
    from zscore_window [OF Some t] sd nz show ?thesis by auto
  qed
  have const: "zscore s w ! t = NaN" if le: "w \<le> t + 1" and c: "\<forall>i<w. s ! (t - i) = Fin c" for c
  proof -
    have win: "window_at w s t = Some (replicate w c)"
      by (rule window_at_constant [OF w le t c])
    have "last (replicate w c) = c" using w by (cases w) simp_all
    with zscore_window(1) [OF win t] w show ?thesis
      by (simp add: mean_replicate sumsq_replicate sum_list_replicate)
  qed
  have numeric': "\<forall>win. w \<le> t + 1 \<and> take w (drop (t + 1 - w) s) = map Fin win \<longrightarrow>
          rolling_apply w (std 0) s ! t = Fin (sqrt ((\<Sum>x\<leftarrow>win. (x - mean win)\<^sup>2) / real w))
        \<and> zscore s w ! t =
            (if sqrt ((\<Sum>x\<leftarrow>win. (x - mean win)\<^sup>2) / real w) = 0 then NaN
             else Fin ((last win - mean win) / sqrt ((\<Sum>x\<leftarrow>win. (x - mean win)\<^sup>2) / real w)))"
    using numeric by blast
  have defined': "\<forall>sd. rolling_apply w (std 0) s ! t = Fin sd \<and> sd \<noteq> 0 \<longrightarrow> (\<exists>z. zscore s w ! t = Fin z)"
    using defined by blast
  have const': "\<forall>c. w \<le> t + 1 \<and> (\<forall>i<w. s ! (t - i) = Fin c) \<longrightarrow> zscore s w ! t = NaN"
    using const by blast
  show ?thesis by (intro conjI len early wiff numeric' broken defined' const')
qed

theorem zscore_rows_witness:
  "zscore [Fin 1, Fin 3, Fin 3, Fin 5, PInf, Fin 2] 2 ! 0 = NaN
   \<and> rolling_apply 2 (std 0) [Fin 1, Fin 3, Fin 3, Fin 5, PInf, Fin 2] ! 1 = Fin 1
   \<and> zscore [Fin 1, Fin 3, Fin 3, Fin 5, PInf, Fin 2] 2 ! 1 = Fin 1
   \<and> zscore [Fin 1, Fin 3, Fin 3, Fin 5, PInf, Fin 2] 2 ! 2 = NaN
   \<and> zscore [Fin 1, Fin 3, Fin 3, Fin 5, PInf, Fin 2] 2 ! 3 = Fin 1
   \<and> zscore [Fin 1, Fin 3, Fin 3, Fin 5, PInf, Fin 2] 2 ! 5 = NaN"
  using zscore_rows [of 2 0 "[Fin 1, Fin 3, Fin 3, Fin 5, PInf, Fin 2]"]
    zscore_rows [of 2 1 "[Fin 1, Fin 3, Fin 3, Fin 5, PInf, Fin 2]"]
    zscore_rows [of 2 2 "[Fin 1, Fin 3, Fin 3, Fin 5, PInf, Fin 2]"]
    zscore_rows [of 2 3 "[Fin 1, Fin 3, Fin 3, Fin 5, PInf, Fin 2]"]
    zscore_rows [of 2 5 "[Fin 1, Fin 3, Fin 3, Fin 5, PInf, Fin 2]"]
  by (simp add: zscore_def rolling_apply_def window_at_def std_def mean_def nth_Cons' upt_conv_Cons)

subsection \<open>Rolling percentile rank\<close>

lemma pct_rank_nth:
  assumes "window_at w s t = Some win" and "t < length s"
  shows "pct_rank s w ! t = Fin (rank_average win (last win) / real w)"
proof -
  from window_at_Some [OF assms] have ne: "win \<noteq> []" and len: "length win = w" by simp_all
  from ne have "last (rank_pct win) = rank_average win (last win) / real (length win)"
    by (simp add: rank_pct_def last_map)
  with assms len show ?thesis by (simp add: pct_rank_def rolling_apply_nth)
qed

lemma count_less_eq_le:
  "length (filter (\<lambda>y. y < x) win) + length (filter (\<lambda>y. y = x) win) \<le> length (win :: real list)"
  by (induction win) auto

lemma count_eq_pos: "x \<in> set win \<Longrightarrow> 0 < length (filter (\<lambda>y. y = x) win)"
  by (induction win) auto

lemma half_rank_lower:
  fixes e l :: real
  shows "1 \<le> e \<Longrightarrow> 0 \<le> l \<Longrightarrow> 1 \<le> l + (e + 1) / 2"
  by (simp add: field_simps)

lemma half_rank_upper:
  fixes e l n :: real
  shows "1 \<le> e \<Longrightarrow> l + e \<le> n \<Longrightarrow> l + (e + 1) / 2 \<le> n"
  by (simp add: field_simps)

lemma rank_average_bounds:
  assumes "x \<in> set win"
  shows "1 \<le> rank_average win x" "rank_average win x \<le> real (length win)"
proof -
  let ?l = "length (filter (\<lambda>y. y < x) win)" and ?e = "length (filter (\<lambda>y. y = x) win)"
  from count_eq_pos [OF assms] have e: "1 \<le> real ?e" by linarith
  have le: "real ?l + real ?e \<le> real (length win)"
    using count_less_eq_le [of x win] by (simp only: of_nat_add [symmetric] of_nat_le_iff)
  have l0: "0 \<le> real ?l" by simp
  show "1 \<le> rank_average win x"
    unfolding rank_average_def by (rule half_rank_lower [OF e l0])
  show "rank_average win x \<le> real (length win)"
    unfolding rank_average_def by (rule half_rank_upper [OF e le])
qed

lemma sum_consecutive:
  "sum_list (map real [l + 1 ..< l + e + 1]) = real e * real l + real e * (real e + 1) / 2"
  by (induction e) (simp_all add: algebra_simps)

lemma average_of_places:
  assumes "0 < e"
  shows "real l + (real e + 1) / 2 = sum_list (map real [l + 1 ..< l + e + 1]) / real e"
proof -
  have "sum_list (map real [l + 1 ..< l + e + 1]) = real e * real l + real e * (real e + 1) / 2"
    by (rule sum_consecutive)
  moreover from assms have "real e \<noteq> 0" by simp
  ultimately show ?thesis by (simp only:) (simp add: field_simps)
qed

lemma rank_average_positions:
  assumes "x \<in> set win"
  shows "rank_average win x =
     sum_list (map real [length (filter (\<lambda>y. y < x) win) + 1 ..<
                         length (filter (\<lambda>y. y < x) win) + length (filter (\<lambda>y. y = x) win) + 1])
       / real (length (filter (\<lambda>y. y = x) win))"
  unfolding rank_average_def by (rule average_of_places) (rule count_eq_pos [OF assms])

lemma rank_average_increasing:
  assumes "sorted_wrt (<) win" and "win \<noteq> []"
  shows "rank_average win (last win) = real (length win)"
proof -
  from assms(2) obtain ys x where win: "win = ys @ [x]" by (metis rev_exhaust)
  with assms(1) have lt: "\<forall>y \<in> set ys. y < x" by (simp add: sorted_wrt_append)
  then have "filter (\<lambda>y. y < x) ys = ys" "filter (\<lambda>y. y = x) ys = []"
    by (auto simp: filter_empty_conv)
  with win show ?thesis by (simp add: rank_average_def)
qed

text \<open>
  C6. For a window \<open>w > 0\<close> and a row \<open>t\<close> of the column: the percentile rank is missing
  before the window is filled and is never an infinity; every defined value lies in [0, 1];
  over a window of numbers it is the mean of the places that the values tied with the
  current one take after the smaller ones (the average rank of the ties), divided by \<open>w\<close>;
  and in a strictly increasing column every window-filled row has rank 1.
\<close>

theorem pct_rank_rows:
  assumes w: "0 < w" and t: "t < length s"
  shows "length (pct_rank s w) = length s
    \<and> (t + 1 < w \<longrightarrow> pct_rank s w ! t = NaN)
    \<and> pct_rank s w ! t \<noteq> PInf \<and> pct_rank s w ! t \<noteq> NInf
    \<and> (\<forall>r. pct_rank s w ! t = Fin r \<longrightarrow> 0 \<le> r \<and> r \<le> 1)
    \<and> (\<forall>win. window_at w s t = Some win \<longrightarrow>
          take w (drop (t + 1 - w) s) = map Fin win
        \<and> pct_rank s w ! t =
            Fin (sum_list (map real
                   [length (filter (\<lambda>y. y < last win) win) + 1 ..<
                    length (filter (\<lambda>y. y < last win) win)
                      + length (filter (\<lambda>y. y = last win) win) + 1])
                 / real (length (filter (\<lambda>y. y = last win) win)) / real w))
    \<and> (\<forall>vs. s = map Fin vs \<and> sorted_wrt (<) vs \<and> w \<le> t + 1 \<longrightarrow> pct_rank s w ! t = Fin 1)"
proof -
  have len: "length (pct_rank s w) = length s"
    by (simp add: pct_rank_def length_rolling_apply)
  have early: "pct_rank s w ! t = NaN" if "t + 1 < w"
    using that t by (simp add: pct_rank_def rolling_apply_nth window_at_early)
  have cases: "pct_rank s w ! t = NaN \<or> (\<exists>win. window_at w s t = Some win)"
    using t by (cases "window_at w s t") (simp_all add: pct_rank_def rolling_apply_nth)
  have inwin: "last win \<in> set win \<and> length win = w" if "window_at w s t = Some win" for win
    using window_at_Some [OF that t] by simp
  have bounds: "0 \<le> r \<and> r \<le> 1" if r: "pct_rank s w ! t = Fin r" for r
  proof -
    from cases r obtain win where win: "window_at w s t = Some win" by auto
    from inwin [OF win] have mem: "last win \<in> set win" and lw: "length win = w" by simp_all
    from pct_rank_nth [OF win t] r have "r = rank_average win (last win) / real w" by simp
    moreover have "0 \<le> rank_average win (last win) / real w"
      using rank_average_bounds(1) [OF mem] by (intro divide_nonneg_nonneg) simp_all
    moreover have "rank_average win (last win) / real w \<le> 1"
      using rank_average_bounds(2) [OF mem] lw w by (simp add: divide_le_eq_1)
    ultimately show ?thesis by simp
  qed
  have noinf: "pct_rank s w ! t \<noteq> PInf \<and> pct_rank s w ! t \<noteq> NInf"
    using cases pct_rank_nth t by fastforce
  have ties: "take w (drop (t + 1 - w) s) = map Fin win
        \<and> pct_rank s w ! t =
            Fin (sum_list (map real
                   [length (filter (\<lambda>y. y < last win) win) + 1 ..<
                    length (filter (\<lambda>y. y < last win) win)
                      + length (filter (\<lambda>y. y = last win) win) + 1])
                 / real (length (filter (\<lambda>y. y = last win) win)) / real w)"
    if win: "window_at w s t = Some win" for win
  proof -
    from inwin [OF win] have mem: "last win \<in> set win" by simp
    from pct_rank_nth [OF win t] rank_average_positions [OF mem] window_at_Some(3) [OF win t]
    show ?thesis by simp
  qed
  have incr: "pct_rank s w ! t = Fin 1"
    if s: "s = map Fin vs" and srt: "sorted_wrt (<) vs" and le: "w \<le> t + 1" for vs
  proof -
    let ?win = "take w (drop (t + 1 - w) vs)"
    have "take w (drop (t + 1 - w) s) = map Fin ?win" by (simp add: s take_map drop_map)
    then have "those (map fin_opt (take w (drop (t + 1 - w) s))) = Some ?win"
      by (simp only: those_fin_opt)
    with w le have win: "window_at w s t = Some ?win" by (simp add: window_at_def)
    from inwin [OF win] have lw: "length ?win = w" by simp
    with w have ne: "?win \<noteq> []" by auto
    have "sorted_wrt (<) ?win" using srt by (intro sorted_wrt_take sorted_wrt_drop)
    from rank_average_increasing [OF this ne] pct_rank_nth [OF win t] lw w
    show ?thesis by simp
  qed
  from len early noinf bounds ties incr show ?thesis by blast
qed

theorem pct_rank_rows_witness:
  "pct_rank [Fin 1, Fin 2, Fin 2, Fin 5, Fin 2] 3 ! 1 = NaN
   \<and> pct_rank [Fin 1, Fin 2, Fin 2, Fin 5, Fin 2] 3 ! 2 = Fin (5 / 6)
   \<and> pct_rank [Fin 1, Fin 2, Fin 3, Fin 5, Fin 8] 3 ! 4 = Fin 1"
  using pct_rank_rows [of 3 1 "[Fin 1, Fin 2, Fin 2, Fin 5, Fin 2]"]
    pct_rank_rows [of 3 2 "[Fin 1, Fin 2, Fin 2, Fin 5, Fin 2]"]
    pct_rank_rows [of 3 4 "[Fin 1, Fin 2, Fin 3, Fin 5, Fin 8]"]
  by (simp add: window_at_def upt_conv_Cons)

subsection \<open>The feature master's join\<close>

lemma set_merge_inner:
  "(k, a, b) \<in> set (merge_inner left right) \<longleftrightarrow> (k, a) \<in> set left \<and> (k, b) \<in> set right"
proof
  assume "(k, a, b) \<in> set (merge_inner left right)"
  then show "(k, a) \<in> set left \<and> (k, b) \<in> set right"
    by (auto simp: merge_inner_def)
next
  assume h: "(k, a) \<in> set left \<and> (k, b) \<in> set right"
  then have "(k, a, b) \<in> set (map (\<lambda>(k', b). (k, a, b)) (filter (\<lambda>(k', b). k' = k) right))"
    by force
  with h show "(k, a, b) \<in> set (merge_inner left right)"
    unfolding merge_inner_def set_concat by (intro UN_I [of "map (\<lambda>(k', b). (k, a, b)) (filter (\<lambda>(k', b). k' = k) right)"]) force+
qed

lemma set_to_datetime_col:
  "(k, a) \<in> set (to_datetime_col to_dt df) \<longleftrightarrow> (\<exists>d. (d, a) \<in> set df \<and> to_dt d = k)"
  by (auto simp: to_datetime_col_def)

text \<open>
  C10. The feature master joins the two tables with an inner merge on the coerced date: the
  timestamps of the result are exactly those present in both inputs, the rows are in
  chronological order, and a row of the result pairs a row of the one table with a row of the
  other of that very timestamp (nothing is carried over from another date), for every such
  pair.
\<close>

theorem gli_merge_intersection:
  "set (map fst (gli_merge to_dt net gcb))
     = set (map (\<lambda>r. to_dt (fst r)) net) \<inter> set (map (\<lambda>r. to_dt (fst r)) gcb)
   \<and> sorted (map (\<lambda>r. date_key (fst r)) (gli_merge to_dt net gcb))
   \<and> (\<forall>k a b. (k, a, b) \<in> set (gli_merge to_dt net gcb) \<longleftrightarrow>
         (\<exists>d. (d, a) \<in> set net \<and> to_dt d = k) \<and> (\<exists>d. (d, b) \<in> set gcb \<and> to_dt d = k))"
proof -
  have rows: "(k, a, b) \<in> set (gli_merge to_dt net gcb) \<longleftrightarrow>
         (\<exists>d. (d, a) \<in> set net \<and> to_dt d = k) \<and> (\<exists>d. (d, b) \<in> set gcb \<and> to_dt d = k)" for k a b
    by (simp add: gli_merge_def set_merge_inner set_to_datetime_col)
  have "k \<in> set (map fst (gli_merge to_dt net gcb)) \<longleftrightarrow>
      k \<in> set (map (\<lambda>r. to_dt (fst r)) net) \<inter> set (map (\<lambda>r. to_dt (fst r)) gcb)" for k
  proof -
    have "k \<in> set (map fst (gli_merge to_dt net gcb)) \<longleftrightarrow> (\<exists>a b. (k, a, b) \<in> set (gli_merge to_dt net gcb))"
      by force
    also have "\<dots> \<longleftrightarrow> (\<exists>d a. (d, a) \<in> set net \<and> to_dt d = k) \<and> (\<exists>d b. (d, b) \<in> set gcb \<and> to_dt d = k)"
      unfolding rows by blast
    also have "\<dots> \<longleftrightarrow> k \<in> set (map (\<lambda>r. to_dt (fst r)) net) \<inter> set (map (\<lambda>r. to_dt (fst r)) gcb)"
      by force
    finally show ?thesis .
  qed
  then have keys: "set (map fst (gli_merge to_dt net gcb))
     = set (map (\<lambda>r. to_dt (fst r)) net) \<inter> set (map (\<lambda>r. to_dt (fst r)) gcb)"
    by blast
  have srt: "sorted (map (\<lambda>r. date_key (fst r)) (gli_merge to_dt net gcb))"
    by (simp add: gli_merge_def)
  from keys srt rows show ?thesis by blast
qed

theorem gli_merge_intersection_witness:
  "gli_merge Some [(3::int, ''a''), (1, ''b''), (2, ''c'')] [(2, ''x''), (3, ''y''), (4, ''z'')]
     = [(Some 2, ''c'', ''x''), (Some 3, ''a'', ''y'')]
   \<and> set (map fst [(Some (2::int), ''c'', ''x''), (Some 3, ''a'', ''y'')]) = {Some 2, Some 3}"
  using gli_merge_intersection [of Some "[(3::int, ''a''), (1, ''b''), (2, ''c'')]" "[(2, ''x''), (3, ''y''), (4, ''z'')]"]
  by (simp add: gli_merge_def merge_inner_def to_datetime_col_def date_key_def)

subsection \<open>Reading a series, appending to a stored one\<close>

lemma coerce_row_Some:
  "coerce_row to_dt to_num r = Some (ts, x) \<longleftrightarrow>
     to_dt (fst r) = Some ts \<and> to_num (snd r) = x \<and> \<not> isna x"
  by (auto simp: coerce_row_def split: option.splits)

lemma distinct_map_sort_key:
  "distinct (map f (sort_key g xs)) \<longleftrightarrow> distinct (map f xs)"
  by (simp add: distinct_map)

lemma ddl_keys: "set (map key (drop_duplicates_last key rs)) = set (map key rs)"
  by (induction rs) auto

lemma ddl_subset: "set (drop_duplicates_last key rs) \<subseteq> set rs"
  by (induction rs) auto

lemma ddl_distinct: "distinct (map key (drop_duplicates_last key rs))"
proof (induction rs)
  case Nil
  then show ?case by simp
next
  case (Cons r rs)
  have "key r \<notin> set (map key (drop_duplicates_last key rs))" if "key r \<notin> set (map key rs)"
    using that by (simp only: ddl_keys) simp
  with Cons show ?case by auto
qed

lemma ddl_last:
  "r \<in> set (drop_duplicates_last key rs) \<longleftrightarrow>
     (\<exists>pre post. rs = pre @ r # post \<and> key r \<notin> set (map key post))"
proof (induction rs)
  case Nil
  then show ?case by simp
next
  case (Cons x rs)
  show ?case
  proof
    assume a: "r \<in> set (drop_duplicates_last key (x # rs))"
    show "\<exists>pre post. x # rs = pre @ r # post \<and> key r \<notin> set (map key post)"
    proof (cases "r \<in> set (drop_duplicates_last key rs)")
      case True
      with Cons.IH obtain pre post where "rs = pre @ r # post" "key r \<notin> set (map key post)"
        by blast
      then have "x # rs = (x # pre) @ r # post \<and> key r \<notin> set (map key post)" by simp
      then show ?thesis by blast
    next
      case False
      with a have "r = x" and "key x \<notin> set (map key rs)" by (auto split: if_splits)
      then have "x # rs = [] @ r # rs \<and> key r \<notin> set (map key rs)" by simp
      then show ?thesis by blast
    qed
  next
    assume "\<exists>pre post. x # rs = pre @ r # post \<and> key r \<notin> set (map key post)"
    then obtain pre post where eq: "x # rs = pre @ r # post" and k: "key r \<notin> set (map key post)"
      by blast
    show "r \<in> set (drop_duplicates_last key (x # rs))"
    proof (cases pre)
      case Nil
      with eq k show ?thesis by auto
    next
      case (Cons y pre')
      with eq have "rs = pre' @ r # post" by simp
      with k Cons.IH have "r \<in> set (drop_duplicates_last key rs)" by blast
      then show ?thesis by auto
    qed
  qed
qed

lemma set_map_filter_iff: "y \<in> set (List.map_filter f xs) \<longleftrightarrow> (\<exists>x \<in> set xs. f x = Some y)"
  by (induction xs) (auto split: option.splits)

lemma drop_nat_Some: "drop_nat r = Some (ts, a) \<longleftrightarrow> r = (Some ts, a)"
  by (cases r) (auto simp: drop_nat_def split: option.splits)

lemma drop_nat_simps: "drop_nat (None, a) = None" "drop_nat (Some ts, a) = Some (ts, a)"
  by (simp_all add: drop_nat_def)

lemma drop_nat_set: "(ts, a) \<in> set (List.map_filter drop_nat rs) \<longleftrightarrow> (Some ts, a) \<in> set rs"
  by (simp add: set_map_filter_iff drop_nat_Some)

lemma drop_nat_distinct:
  assumes "distinct (map key rs)"
    and "\<And>ts a ts' a'. key (Some ts, a) = key (Some ts', a') \<longleftrightarrow> key2 (ts, a) = key2 (ts', a')"
  shows "distinct (map key2 (List.map_filter drop_nat rs))"
  using assms(1)
proof (induction rs)
  case Nil
  then show ?case by simp
next
  case (Cons r rs)
  obtain d a where r: "r = (d, a)" by (cases r)
  show ?case
  proof (cases d)
    case None
    with Cons r show ?thesis by (simp add: drop_nat_simps)
  next
    case (Some ts)
    have "key2 (ts, a) \<notin> set (map key2 (List.map_filter drop_nat rs))"
    proof
      assume "key2 (ts, a) \<in> set (map key2 (List.map_filter drop_nat rs))"
      then obtain ts' a' where m: "(ts', a') \<in> set (List.map_filter drop_nat rs)"
        and k: "key2 (ts, a) = key2 (ts', a')" by auto
      from m have "(Some ts', a') \<in> set rs" by (simp only: drop_nat_set)
      then have "key (Some ts', a') \<in> set (map key rs)" by force
      moreover from k have "key (Some ts, a) = key (Some ts', a')" by (simp only: assms(2))
      ultimately show False using Cons.prems r Some by simp
    qed
    with Cons r Some show ?thesis by (simp add: drop_nat_simps)
  qed
qed

text \<open>
  C9, as the code has it. \<open>_read_series\<close> (and \<open>_read\<close>) stops with \<open>SystemExit\<close> exactly when
  a required column is absent; otherwise it returns, sorted by timestamp, exactly the rows
  whose two coercions both succeed, duplicates included: its result has no two observations
  of one timestamp if and only if the coercible rows of its input have none. Deduplication
  is \<open>_merge_append\<close>'s: on a frame with a \<open>date\<close> column it returns the rows sorted by timestamp,
  one per key (the pair of timestamp and \<open>series_id\<close>, or the timestamp alone without a
  \<open>series_id\<close> column), and the row it keeps for a key is the last one of that key.
\<close>

theorem normalizer_rows:
  fixes df :: "('d, 'v) raw_frame" and to_dt :: "'d \<Rightarrow> int option" and to_num :: "'v \<Rightarrow> fl"
    and old :: "('e, 's, 'w) bronze option" and new_df :: "('e, 's, 'w) bronze"
    and to_dt' :: "'e \<Rightarrow> int option"
  defines "valid \<equiv> (\<lambda>ds vs. List.map_filter (coerce_row to_dt to_num) (zip ds vs))"
    and "cat \<equiv> (case old of None \<Rightarrow> new_df | Some old_df \<Rightarrow> concat_frames old_df new_df)"
  defines "coerced \<equiv> map (\<lambda>r. (date_of to_dt' (fst r), snd r)) (rows cat)"
  shows "(read_series to_dt to_num df = Inl SystemExit \<longleftrightarrow> date_col df = None \<or> value_col df = None)
    \<and> (\<forall>ds vs. date_col df = Some ds \<and> value_col df = Some vs \<longrightarrow>
          (\<exists>out. read_series to_dt to_num df = Inr out
             \<and> sorted (map fst out)
             \<and> mset out = mset (valid ds vs)
             \<and> (\<forall>ts x. (ts, x) \<in> set out \<longleftrightarrow>
                   \<not> isna x \<and> (\<exists>r \<in> set (zip ds vs). to_dt (fst r) = Some ts \<and> to_num (snd r) = x))
             \<and> (distinct (map fst out) \<longleftrightarrow> distinct (map fst (valid ds vs)))))
    \<and> (\<not> has_date cat \<longrightarrow> merge_append to_dt' old new_df = Inl KeyError)
    \<and> (has_date cat \<longrightarrow>
          (\<exists>out. merge_append to_dt' old new_df = Inr out
             \<and> sorted (map fst out)
             \<and> (has_series_id cat \<longrightarrow>
                   distinct (map (\<lambda>r. (fst r, fst (snd r))) out)
                 \<and> (\<forall>ts a. (ts, a) \<in> set out \<longleftrightarrow>
                       (\<exists>pre post. coerced = pre @ (Some ts, a) # post
                          \<and> (Some ts, fst a) \<notin> set (map (\<lambda>r. (fst r, fst (snd r))) post))))
             \<and> (\<not> has_series_id cat \<longrightarrow>
                   distinct (map fst out)
                 \<and> (\<forall>ts a. (ts, a) \<in> set out \<longleftrightarrow>
                       (\<exists>pre post. coerced = pre @ (Some ts, a) # post
                          \<and> Some ts \<notin> set (map fst post))))))"
proof -
  have exit: "read_series to_dt to_num df = Inl SystemExit \<longleftrightarrow> date_col df = None \<or> value_col df = None"
    by (auto simp: read_series_def split: option.splits)
  have rd: "\<exists>out. read_series to_dt to_num df = Inr out
             \<and> sorted (map fst out)
             \<and> mset out = mset (valid ds vs)
             \<and> (\<forall>ts x. (ts, x) \<in> set out \<longleftrightarrow>
                   \<not> isna x \<and> (\<exists>r \<in> set (zip ds vs). to_dt (fst r) = Some ts \<and> to_num (snd r) = x))
             \<and> (distinct (map fst out) \<longleftrightarrow> distinct (map fst (valid ds vs)))"
    if c: "date_col df = Some ds \<and> value_col df = Some vs" for ds vs
  proof -
    let ?out = "sort_key fst (valid ds vs)"
    from c have 1: "read_series to_dt to_num df = Inr ?out"
      by (simp add: read_series_def valid_def)
    have 2: "sorted (map fst ?out)" by simp
    have 3: "mset ?out = mset (valid ds vs)" by simp
    have 4: "(ts, x) \<in> set ?out \<longleftrightarrow>
        \<not> isna x \<and> (\<exists>r \<in> set (zip ds vs). to_dt (fst r) = Some ts \<and> to_num (snd r) = x)" for ts x
      by (auto simp: valid_def set_map_filter_iff coerce_row_Some)
    have 5: "distinct (map fst ?out) \<longleftrightarrow> distinct (map fst (valid ds vs))"
      by (rule distinct_map_sort_key)
    from 1 2 3 4 5 show ?thesis by blast
  qed
  have nodate: "merge_append to_dt' old new_df = Inl KeyError" if "\<not> has_date cat"
    using that by (simp add: merge_append_def cat_def Let_def)
  have ma: "\<exists>out. merge_append to_dt' old new_df = Inr out
             \<and> sorted (map fst out)
             \<and> (has_series_id cat \<longrightarrow>
                   distinct (map (\<lambda>r. (fst r, fst (snd r))) out)
                 \<and> (\<forall>ts a. (ts, a) \<in> set out \<longleftrightarrow>
                       (\<exists>pre post. coerced = pre @ (Some ts, a) # post
                          \<and> (Some ts, fst a) \<notin> set (map (\<lambda>r. (fst r, fst (snd r))) post))))
             \<and> (\<not> has_series_id cat \<longrightarrow>
                   distinct (map fst out)
                 \<and> (\<forall>ts a. (ts, a) \<in> set out \<longleftrightarrow>
                       (\<exists>pre post. coerced = pre @ (Some ts, a) # post
                          \<and> Some ts \<notin> set (map fst post))))"
    if hd: "has_date cat"
  proof (cases "has_series_id cat")
    case True
    let ?key = "\<lambda>r :: int option \<times> 's option \<times> 'w. (fst r, fst (snd r))"
    let ?ded = "drop_duplicates_last ?key coerced"
    let ?out = "sort_key fst (List.map_filter drop_nat ?ded)"
    from hd True have 1: "merge_append to_dt' old new_df = Inr ?out"
      by (simp add: merge_append_def cat_def coerced_def Let_def)
    have 2: "sorted (map fst ?out)" by simp
    have "distinct (map (\<lambda>r. (fst r, fst (snd r))) (List.map_filter drop_nat ?ded))"
      by (rule drop_nat_distinct [where key = ?key]) (auto simp: ddl_distinct)
    then have 3: "distinct (map (\<lambda>r. (fst r, fst (snd r))) ?out)"
      by (simp only: distinct_map_sort_key)
    have 4: "(ts, a) \<in> set ?out \<longleftrightarrow>
        (\<exists>pre post. coerced = pre @ (Some ts, a) # post
            \<and> (Some ts, fst a) \<notin> set (map (\<lambda>r. (fst r, fst (snd r))) post))" for ts a
      using ddl_last [of "(Some ts, a)" ?key coerced] by (simp add: drop_nat_set)
    from 1 2 3 4 True show ?thesis by blast
  next
    case False
    let ?ded = "drop_duplicates_last fst coerced"
    let ?out = "sort_key fst (List.map_filter drop_nat ?ded)"
    from hd False have 1: "merge_append to_dt' old new_df = Inr ?out"
      by (simp add: merge_append_def cat_def coerced_def Let_def)
    have 2: "sorted (map fst ?out)" by simp
    have "distinct (map fst (List.map_filter drop_nat ?ded))"
      by (rule drop_nat_distinct [where key = fst]) (auto simp: ddl_distinct)
    then have 3: "distinct (map fst ?out)"
      by (simp only: distinct_map_sort_key)
    have 4: "(ts, a) \<in> set ?out \<longleftrightarrow>
        (\<exists>pre post. coerced = pre @ (Some ts, a) # post \<and> Some ts \<notin> set (map fst post))" for ts a
      using ddl_last [of "(Some ts, a)" fst coerced] by (simp add: drop_nat_set)
    from 1 2 3 4 False show ?thesis by blast
  qed
  from exit rd nodate ma show ?thesis by blast
qed

theorem normalizer_rows_witness:
  "read_series Some (\<lambda>x. x) \<lparr>date_col = Some [2, 3, 1 :: int], value_col = Some [Fin 10, NaN, Fin 12]\<rparr>
     = Inr [(1, Fin 12), (2, Fin 10)]
   \<and> merge_append Some None
        \<lparr>has_date = True, has_series_id = True,
         rows = [(Some (2 :: int), Some ''A'', Fin 1), (Some 1, Some ''A'', Fin 2),
                 (Some 2, Some ''A'', Fin 3)]\<rparr>
     = Inr [(1, Some ''A'', Fin 2), (2, Some ''A'', Fin 3)]"
  using normalizer_rows [where to_dt = Some and to_num = "\<lambda>x. x"
      and df = "\<lparr>date_col = Some [2, 3, 1 :: int], value_col = Some [Fin 10, NaN, Fin 12]\<rparr>"
      and to_dt' = Some and old = None
      and new_df = "\<lparr>has_date = True, has_series_id = True,
         rows = [(Some (2 :: int), Some ''A'', Fin 1), (Some 1, Some ''A'', Fin 2),
                 (Some 2, Some ''A'', Fin 3)]\<rparr>"]
  by (simp add: read_series_def coerce_row_def merge_append_def date_of_def drop_nat_def)

text \<open>
  C9 as stated fails on the readers: two rows of one timestamp, both coercible, are both in
  the series that \<open>_read_series\<close> returns.
\<close>

theorem read_series_keeps_duplicates_counterexample:
  "read_series Some Fin \<lparr>date_col = Some [1, 1 :: int], value_col = Some [10, 11 :: real]\<rparr>
     = Inr [(1, Fin 10), (1, Fin 11)]
   \<and> \<not> distinct (map fst [(1 :: int, Fin 10), (1, Fin 11)])"
  by (simp add: read_series_def coerce_row_def)

subsection \<open>Alignment\<close>

lemma case_nonempty:
  "xs \<noteq> [] \<Longrightarrow> (case xs of [] \<Rightarrow> a | m # ms \<Rightarrow> f (m # ms)) = f xs"
  by (cases xs) auto

lemma set_merge_outer:
  "r \<in> set (merge_outer w L R) \<longleftrightarrow>
     (\<exists>l \<in> set L. (fst l \<notin> set (map fst R) \<and> r = (fst l, snd l @ [NaN]))
                 \<or> (\<exists>v. (fst l, v) \<in> set R \<and> r = (fst l, snd l @ [v])))
   \<or> (\<exists>ob \<in> set R. fst ob \<notin> set (map fst L) \<and> r = (fst ob, replicate w NaN @ [snd ob]))"
proof -
  have left: "r \<in> set (case filter (\<lambda>(k', v). k' = k) R of
                  [] \<Rightarrow> [(k, cells @ [NaN])]
                | ms \<Rightarrow> map (\<lambda>(k', v). (k, cells @ [v])) ms)
      \<longleftrightarrow> (k \<notin> set (map fst R) \<and> r = (k, cells @ [NaN])) \<or> (\<exists>v. (k, v) \<in> set R \<and> r = (k, cells @ [v]))"
    for k cells
  proof (cases "filter (\<lambda>(k', v). k' = k) R")
    case Nil
    then have "k \<notin> set (map fst R)" by (auto simp: filter_empty_conv)
    moreover from this have "\<not> (\<exists>v. (k, v) \<in> set R)" by force
    ultimately show ?thesis using Nil by auto
  next
    case (Cons m ms)
    then have "m \<in> set (filter (\<lambda>(k', v). k' = k) R)" by simp
    then have "k \<in> set (map fst R)" by force
    moreover have "r \<in> set (map (\<lambda>(k', v). (k, cells @ [v])) (filter (\<lambda>(k', v). k' = k) R))
        \<longleftrightarrow> (\<exists>v. (k, v) \<in> set R \<and> r = (k, cells @ [v]))" by force
    moreover from Cons have "filter (\<lambda>(k', v). k' = k) R \<noteq> []" by simp
    then have "(case filter (\<lambda>(k', v). k' = k) R of
                  [] \<Rightarrow> [(k, cells @ [NaN])]
                | ms \<Rightarrow> map (\<lambda>(k', v). (k, cells @ [v])) ms)
        = map (\<lambda>(k', v). (k, cells @ [v])) (filter (\<lambda>(k', v). k' = k) R)"
      by (rule case_nonempty)
    ultimately show ?thesis by (simp only:) blast
  qed
  have "r \<in> set (merge_outer w L R) \<longleftrightarrow>
      (\<exists>l \<in> set L. r \<in> set (case filter (\<lambda>(k', v). k' = fst l) R of
                  [] \<Rightarrow> [(fst l, snd l @ [NaN])]
                | ms \<Rightarrow> map (\<lambda>(k', v). (fst l, snd l @ [v])) ms))
      \<or> (\<exists>ob \<in> set R. fst ob \<notin> set (map fst L) \<and> r = (fst ob, replicate w NaN @ [snd ob]))"
    by (auto simp: merge_outer_def split_def)
  then show ?thesis by (simp only: left)
qed

lemma keys_merge_outer:
  "set (map fst (merge_outer w L R)) = set (map fst L) \<union> set (map fst R)"
proof (intro set_eqI iffI)
  fix k assume "k \<in> set (map fst (merge_outer w L R))"
  then obtain r where r: "r \<in> set (merge_outer w L R)" "fst r = k" by auto
  from r(1) [unfolded set_merge_outer] r(2)
  show "k \<in> set (map fst L) \<union> set (map fst R)" by force
next
  fix k assume k: "k \<in> set (map fst L) \<union> set (map fst R)"
  show "k \<in> set (map fst (merge_outer w L R))"
  proof (cases "k \<in> set (map fst L)")
    case True
    then obtain l where l: "l \<in> set L" "fst l = k" by auto
    show ?thesis
    proof (cases "k \<in> set (map fst R)")
      case True
      then obtain v where "(k, v) \<in> set R" by auto
      with l have "(k, snd l @ [v]) \<in> set (merge_outer w L R)"
        unfolding set_merge_outer by blast
      then show ?thesis by force
    next
      case False
      with l have "(k, snd l @ [NaN]) \<in> set (merge_outer w L R)"
        unfolding set_merge_outer by blast
      then show ?thesis by force
    qed
  next
    case False
    with k obtain ob where "ob \<in> set R" "fst ob = k" by auto
    with False have "(k, replicate w NaN @ [snd ob]) \<in> set (merge_outer w L R)"
      unfolding set_merge_outer by blast
    then show ?thesis by force
  qed
qed

lemma merged_base: "merged [s] (to_frame s)"
proof -
  have "map fst (to_frame s) = map fst s" by (simp add: to_frame_def split_def)
  moreover have "length (snd r) = 1 \<and> cell_ok s (fst r) (snd r ! 0)" if "r \<in> set (to_frame s)" for r
    using that by (auto simp: to_frame_def cell_ok_def)
  ultimately show ?thesis by (simp add: merged_def keys_of_def)
qed

lemma merged_step:
  assumes F: "merged S F"
  shows "merged (S @ [s]) (merge_outer (length S) F s)"
proof -
  let ?n = "length S"
  from F have kF: "set (map fst F) = keys_of S"
    and rF: "\<And>r. r \<in> set F \<Longrightarrow> length (snd r) = ?n \<and> (\<forall>j < ?n. cell_ok (S ! j) (fst r) (snd r ! j))"
    by (simp_all add: merged_def)
  have k: "set (map fst (merge_outer ?n F s)) = keys_of (S @ [s])"
    unfolding keys_merge_outer kF keys_of_def by auto
  have r: "length (snd r) = length (S @ [s])
      \<and> (\<forall>j < length (S @ [s]). cell_ok ((S @ [s]) ! j) (fst r) (snd r ! j))"
    if "r \<in> set (merge_outer ?n F s)" for r
  proof -
    from that [unfolded set_merge_outer]
    consider l where "l \<in> set F" "fst l \<notin> set (map fst s)" "r = (fst l, snd l @ [NaN])"
      | l v where "l \<in> set F" "(fst l, v) \<in> set s" "r = (fst l, snd l @ [v])"
      | ob where "ob \<in> set s" "fst ob \<notin> set (map fst F)" "r = (fst ob, replicate ?n NaN @ [snd ob])"
      by blast
    then show ?thesis
    proof cases
      case 1
      from rF [OF 1(1)] have len: "length (snd l) = ?n"
        and ok: "\<forall>j < ?n. cell_ok (S ! j) (fst l) (snd l ! j)" by simp_all
      have "cell_ok ((S @ [s]) ! j) (fst r) (snd r ! j)" if "j < Suc ?n" for j
      proof (cases "j < ?n")
        case True
        with ok len 1(3) show ?thesis by (simp add: nth_append)
      next
        case False
        with that have "j = ?n" by simp
        with len 1(2,3) show ?thesis by (simp add: nth_append cell_ok_def)
      qed
      with len 1(3) show ?thesis by simp
    next
      case 2
      from rF [OF 2(1)] have len: "length (snd l) = ?n"
        and ok: "\<forall>j < ?n. cell_ok (S ! j) (fst l) (snd l ! j)" by simp_all
      have "cell_ok ((S @ [s]) ! j) (fst r) (snd r ! j)" if "j < Suc ?n" for j
      proof (cases "j < ?n")
        case True
        with ok len 2(3) show ?thesis by (simp add: nth_append)
      next
        case False
        with that have "j = ?n" by simp
        with len 2(2,3) show ?thesis by (simp add: nth_append cell_ok_def)
      qed
      with len 2(3) show ?thesis by simp
    next
      case 3
      from 3(2) kF have nk: "\<forall>s' \<in> set S. fst ob \<notin> set (map fst s')" by (auto simp: keys_of_def)
      have "cell_ok ((S @ [s]) ! j) (fst r) (snd r ! j)" if "j < Suc ?n" for j
      proof (cases "j < ?n")
        case True
        then have "S ! j \<in> set S" by simp
        with nk have "fst ob \<notin> set (map fst (S ! j))" by blast
        with True 3(3) show ?thesis by (simp add: nth_append cell_ok_def)
      next
        case False
        with that have "j = ?n" by simp
        with 3(1,3) show ?thesis by (simp add: nth_append cell_ok_def)
      qed
      with 3(3) show ?thesis by simp
    qed
  qed
  from k r show ?thesis unfolding merged_def by blast
qed

lemma merged_chain:
  assumes "merged S F"
  shows "merged (S @ rest) (merge_chain (length S) F rest)"
  using assms
proof (induction rest arbitrary: S F)
  case Nil
  then show ?case by simp
next
  case (Cons s rest)
  from Cons.prems have "merged (S @ [s]) (merge_outer (length S) F s)" by (rule merged_step)
  from Cons.IH [OF this] show ?case by simp
qed

lemma merged_sort: "merged S F \<Longrightarrow> merged S (sort_key fst F)"
  by (simp add: merged_def)

lemma ffill_from_cases:
  "i < length xs \<Longrightarrow>
     (\<exists>i' \<le> i. \<not> isna (xs ! i') \<and> ffill_from p xs ! i = xs ! i'
                \<and> (\<forall>m. i' < m \<and> m \<le> i \<longrightarrow> isna (xs ! m)))
   \<or> ((\<forall>m \<le> i. isna (xs ! m)) \<and> ffill_from p xs ! i = p)"
proof (induction xs arbitrary: p i)
  case Nil
  then show ?case by simp
next
  case (Cons x xs)
  show ?case
  proof (cases i)
    case 0
    then show ?thesis by (cases "isna x") auto
  next
    case (Suc i0)
    with Cons.prems have i0: "i0 < length xs" by simp
    let ?p = "if isna x then p else x"
    have nth: "ffill_from p (x # xs) ! i = ffill_from ?p xs ! i0" using Suc by simp
    from Cons.IH [OF i0, of ?p] show ?thesis
    proof (elim disjE exE conjE)
      fix i'
      assume a: "i' \<le> i0" "\<not> isna (xs ! i')" "ffill_from ?p xs ! i0 = xs ! i'"
        "\<forall>m. i' < m \<and> m \<le> i0 \<longrightarrow> isna (xs ! m)"
      have "\<forall>m. Suc i' < m \<and> m \<le> i \<longrightarrow> isna ((x # xs) ! m)"
      proof (intro allI impI)
        fix m assume m: "Suc i' < m \<and> m \<le> i"
        then obtain m0 where m0: "m = Suc m0" by (cases m) auto
        with m Suc a(4) show "isna ((x # xs) ! m)" by simp
      qed
      with a nth Suc have "Suc i' \<le> i \<and> \<not> isna ((x # xs) ! Suc i')
          \<and> ffill_from p (x # xs) ! i = (x # xs) ! Suc i'
          \<and> (\<forall>m. Suc i' < m \<and> m \<le> i \<longrightarrow> isna ((x # xs) ! m))" by simp
      then show ?thesis by blast
    next
      assume a: "\<forall>m \<le> i0. isna (xs ! m)" "ffill_from ?p xs ! i0 = ?p"
      show ?thesis
      proof (cases "isna x")
        case True
        have "\<forall>m \<le> i. isna ((x # xs) ! m)"
        proof (intro allI impI)
          fix m assume "m \<le> i"
          with a(1) True Suc show "isna ((x # xs) ! m)" by (cases m) auto
        qed
        with a(2) nth True show ?thesis by simp
      next
        case False
        have "\<forall>m. 0 < m \<and> m \<le> i \<longrightarrow> isna ((x # xs) ! m)"
        proof (intro allI impI)
          fix m assume "0 < m \<and> m \<le> i"
          with a(1) Suc show "isna ((x # xs) ! m)" by (cases m) auto
        qed
        with a(2) nth False have "0 \<le> i \<and> \<not> isna ((x # xs) ! 0)
          \<and> ffill_from p (x # xs) ! i = (x # xs) ! 0
          \<and> (\<forall>m. 0 < m \<and> m \<le> i \<longrightarrow> isna ((x # xs) ! m))" by simp
        then show ?thesis by blast
      qed
    qed
  qed
qed

lemma ffill_isna:
  assumes "i < length xs"
  shows "isna (ffill xs ! i) \<longleftrightarrow> (\<forall>m \<le> i. isna (xs ! m))"
  using ffill_from_cases [OF assms, of NaN] unfolding ffill_def by auto

lemma ffill_last_seen:
  assumes "i < length xs" and "\<not> isna (ffill xs ! i)"
  shows "\<exists>i' \<le> i. \<not> isna (xs ! i') \<and> ffill xs ! i = xs ! i' \<and> (\<forall>m. i' < m \<and> m \<le> i \<longrightarrow> isna (xs ! m))"
  using ffill_from_cases [OF assms(1), of NaN] assms(2) unfolding ffill_def by auto


lemma cell_ok_notna:
  assumes "cell_ok s k c" and "\<not> isna c"
  shows "(k, c) \<in> set s"
  using assms by (auto simp: cell_ok_def)

lemma cell_ok_key:
  assumes "cell_ok s k c" and "k \<in> set (map fst s)" and "\<forall>r \<in> set s. \<not> isna (snd r)"
  shows "\<not> isna c"
proof -
  from assms(1,2) have "(k, c) \<in> set s" by (auto simp: cell_ok_def)
  with assms(3) show ?thesis by force
qed

lemma column_missing_iff:
  assumes srt: "sorted ks" and sub: "set (map fst s) \<subseteq> set ks"
    and len: "length xs = length ks"
    and ok: "\<forall>i < length ks. cell_ok s (ks ! i) (xs ! i)"
    and vals: "\<forall>r \<in> set s. \<not> isna (snd r)"
    and i: "i < length ks"
  shows "isna (ffill xs ! i) \<longleftrightarrow> \<not> (\<exists>d' \<in> set (map fst s). d' \<le> ks ! i)"
proof -
  from i len have "isna (ffill xs ! i) \<longleftrightarrow> (\<forall>m \<le> i. isna (xs ! m))"
    by (simp add: ffill_isna)
  also have "\<dots> \<longleftrightarrow> \<not> (\<exists>d' \<in> set (map fst s). d' \<le> ks ! i)"
  proof
    assume all: "\<forall>m \<le> i. isna (xs ! m)"
    show "\<not> (\<exists>d' \<in> set (map fst s). d' \<le> ks ! i)"
    proof
      assume "\<exists>d' \<in> set (map fst s). d' \<le> ks ! i"
      then obtain d' where d': "d' \<in> set (map fst s)" "d' \<le> ks ! i" by blast
      with sub have "d' \<in> set ks" by blast
      then obtain m where m: "m < length ks" "ks ! m = d'" by (auto simp: in_set_conv_nth)
      show False
      proof (cases "m \<le> i")
        case True
        with all have "isna (xs ! m)" by blast
        moreover have "\<not> isna (xs ! m)"
        proof -
          from ok m(1) have c: "cell_ok s (ks ! m) (xs ! m)" by blast
          from d'(1) m(2) have "ks ! m \<in> set (map fst s)" by simp
          from cell_ok_key [OF c this vals] show ?thesis .
        qed
        ultimately show False by simp
      next
        case False
        then have "i \<le> m" by simp
        with srt m(1) have "ks ! i \<le> ks ! m" by (intro sorted_nth_mono) simp_all
        with d'(2) m(2) have "ks ! i = d'" by simp
        with d'(1) have "ks ! i \<in> set (map fst s)" by simp
        moreover from ok i have "cell_ok s (ks ! i) (xs ! i)" by blast
        ultimately have "\<not> isna (xs ! i)" using vals by (intro cell_ok_key)
        with all show False by blast
      qed
    qed
  next
    assume none: "\<not> (\<exists>d' \<in> set (map fst s). d' \<le> ks ! i)"
    show "\<forall>m \<le> i. isna (xs ! m)"
    proof (intro allI impI, rule ccontr)
      fix m assume m: "m \<le> i" and nn: "\<not> isna (xs ! m)"
      from m i ok have "cell_ok s (ks ! m) (xs ! m)" by simp
      from cell_ok_notna [OF this nn] have "ks ! m \<in> set (map fst s)" by force
      moreover from srt m i have "ks ! m \<le> ks ! i" by (intro sorted_nth_mono) simp_all
      ultimately show False using none by blast
    qed
  qed
  finally show ?thesis .
qed

lemma column_last_observed:
  assumes srt: "sorted ks" and sub: "set (map fst s) \<subseteq> set ks"
    and len: "length xs = length ks"
    and ok: "\<forall>i < length ks. cell_ok s (ks ! i) (xs ! i)"
    and vals: "\<forall>r \<in> set s. \<not> isna (snd r)"
    and i: "i < length ks" and v: "\<not> isna (ffill xs ! i)"
  shows "\<exists>d'. (d', ffill xs ! i) \<in> set s \<and> d' \<le> ks ! i
           \<and> (\<forall>ob \<in> set s. fst ob \<le> ks ! i \<longrightarrow> fst ob \<le> d')"
proof -
  from i len have "i < length xs" by simp
  from ffill_last_seen [OF this v] obtain i' where i': "i' \<le> i" "\<not> isna (xs ! i')"
    "ffill xs ! i = xs ! i'" "\<forall>m. i' < m \<and> m \<le> i \<longrightarrow> isna (xs ! m)" by blast
  from i' i have il: "i' < length ks" by simp
  from ok il have "cell_ok s (ks ! i') (xs ! i')" by simp
  from cell_ok_notna [OF this i'(2)] i'(3) have mem: "(ks ! i', ffill xs ! i) \<in> set s" by simp
  from srt i'(1) i have le: "ks ! i' \<le> ks ! i" by (intro sorted_nth_mono) simp_all
  have latest: "fst ob \<le> ks ! i'" if ob: "ob \<in> set s" "fst ob \<le> ks ! i" for ob
  proof (rule ccontr)
    assume "\<not> fst ob \<le> ks ! i'"
    then have gt: "ks ! i' < fst ob" by simp
    from ob(1) have key: "fst ob \<in> set (map fst s)" by simp
    with sub have "fst ob \<in> set ks" by blast
    then obtain m where m: "m < length ks" "ks ! m = fst ob" by (auto simp: in_set_conv_nth)
    have im: "i' < m"
    proof (rule ccontr)
      assume "\<not> i' < m"
      then have "m \<le> i'" by simp
      with srt il have "ks ! m \<le> ks ! i'" by (intro sorted_nth_mono) simp_all
      with gt m(2) show False by simp
    qed
    have nn: "\<not> isna (xs ! m)"
    proof -
      from ok m(1) have c: "cell_ok s (ks ! m) (xs ! m)" by blast
      from key m(2) have "ks ! m \<in> set (map fst s)" by simp
      from cell_ok_key [OF c this vals] show ?thesis .
    qed
    show False
    proof (cases "m \<le> i")
      case True
      with im i'(4) have "isna (xs ! m)" by blast
      with nn show False by simp
    next
      case False
      then have "i \<le> m" by simp
      with srt m(1) have "ks ! i \<le> ks ! m" by (intro sorted_nth_mono) simp_all
      with ob(2) m(2) have eq: "ks ! i = fst ob" by simp
      with key have "ks ! i \<in> set (map fst s)" by simp
      moreover from ok i have "cell_ok s (ks ! i) (xs ! i)" by blast
      ultimately have "\<not> isna (xs ! i)" using vals by (intro cell_ok_key)
      with i'(4) i'(1) have "\<not> i' < i" by blast
      with i'(1) have "i' = i" by simp
      with eq gt show False by simp
    qed
  qed
  from mem le latest show ?thesis by blast
qed

lemma align_frame:
  assumes ne: "ss \<noteq> []"
  obtains G where "sorted (map fst G)" and "merged ss G"
    and "align ss = filter (\<lambda>r. list_all (\<lambda>c. \<not> isna c) (snd r))
           (map (\<lambda>i. (fst (G ! i), map (\<lambda>j. ffill (column G j) ! i) [0 ..< length ss]))
              [0 ..< length G])"
proof -
  from ne obtain s0 rest where ss: "ss = s0 # rest" by (cases ss) auto
  let ?G = "sort_key fst (merge_chain 1 (to_frame s0) rest)"
  have "merged [s0] (to_frame s0)" by (rule merged_base)
  from merged_chain [OF this, of rest] ss
  have "merged ss (merge_chain 1 (to_frame s0) rest)" by simp
  then have mg: "merged ss ?G" by (rule merged_sort)
  have srt: "sorted (map fst ?G)" by simp
  have "map (\<lambda>c. c ! i) (map (\<lambda>j. ffill (column ?G j)) [0 ..< length ss])
      = map (\<lambda>j. ffill (column ?G j) ! i) [0 ..< length ss]" for i
    by (simp add: comp_def)
  then have ff: "ffill_columns (length ss) ?G =
      map (\<lambda>i. (fst (?G ! i), map (\<lambda>j. ffill (column ?G j) ! i) [0 ..< length ss])) [0 ..< length ?G]"
    by (simp only: ffill_columns_def Let_def)
  have "align ss = dropna (ffill_columns (length ss) ?G)" by (simp add: align_def ss)
  then have "align ss = filter (\<lambda>r. list_all (\<lambda>c. \<not> isna c) (snd r))
           (map (\<lambda>i. (fst (?G ! i), map (\<lambda>j. ffill (column ?G j) ! i) [0 ..< length ss]))
              [0 ..< length ?G])"
    by (simp only: ff dropna_def)
  with srt mg show ?thesis by (rule that)
qed

lemma align_series_rows:
  assumes ne: "ss \<noteq> []"
    and vals: "\<forall>s \<in> set ss. \<forall>r \<in> set s. \<not> isna (snd r)"
  shows "sorted (map fst (align ss))"
    and "\<forall>d. d \<in> set (map fst (align ss)) \<longleftrightarrow>
          (\<exists>s \<in> set ss. d \<in> set (map fst s)) \<and> (\<forall>s \<in> set ss. \<exists>d' \<in> set (map fst s). d' \<le> d)"
    and "\<forall>r \<in> set (align ss). length (snd r) = length ss
          \<and> (\<forall>j < length ss. \<exists>d'. (d', snd r ! j) \<in> set (ss ! j) \<and> d' \<le> fst r
                \<and> (\<forall>ob \<in> set (ss ! j). fst ob \<le> fst r \<longrightarrow> fst ob \<le> d'))"
    and "align ss = [] \<longleftrightarrow> (\<exists>s \<in> set ss. s = [])"
proof -
  from align_frame [OF ne] obtain G where srt: "sorted (map fst G)" and mg: "merged ss G"
    and al: "align ss = filter (\<lambda>r. list_all (\<lambda>c. \<not> isna c) (snd r))
           (map (\<lambda>i. (fst (G ! i), map (\<lambda>j. ffill (column G j) ! i) [0 ..< length ss]))
              [0 ..< length G])" by blast
  let ?n = "length ss"
  let ?ks = "map fst G"
  let ?cell = "\<lambda>i j. ffill (column G j) ! i"
  let ?FF = "map (\<lambda>i. (fst (G ! i), map (?cell i) [0 ..< ?n])) [0 ..< length G]"
  from mg have kset: "set ?ks = keys_of ss"
    and rows: "\<And>r. r \<in> set G \<Longrightarrow> \<forall>j < ?n. cell_ok (ss ! j) (fst r) (snd r ! j)"
    by (simp_all add: merged_def)
  have sub: "set (map fst (ss ! j)) \<subseteq> set ?ks" if "j < ?n" for j
    using that unfolding kset keys_of_def by force
  have lenc: "length (column G j) = length ?ks" for j by (simp add: column_def)
  have ok: "\<forall>i < length ?ks. cell_ok (ss ! j) (?ks ! i) (column G j ! i)" if j: "j < ?n" for j
  proof (intro allI impI)
    fix i assume i: "i < length ?ks"
    then have "G ! i \<in> set G" by simp
    from rows [OF this] j have "cell_ok (ss ! j) (fst (G ! i)) (snd (G ! i) ! j)" by blast
    with i show "cell_ok (ss ! j) (?ks ! i) (column G j ! i)" by (simp add: column_def)
  qed
  have vj: "\<forall>r \<in> set (ss ! j). \<not> isna (snd r)" if "j < ?n" for j
  proof -
    from that have "ss ! j \<in> set ss" by simp
    with vals show ?thesis by blast
  qed
  have mem: "r \<in> set (align ss) \<longleftrightarrow>
      (\<exists>i < length G. r = (?ks ! i, map (?cell i) [0 ..< ?n]) \<and> (\<forall>j < ?n. \<not> isna (?cell i j)))" for r
    unfolding al by (auto simp: list_all_iff)
  have pop: "(\<forall>j < ?n. \<not> isna (?cell i j)) \<longleftrightarrow> (\<forall>s \<in> set ss. \<exists>d' \<in> set (map fst s). d' \<le> ?ks ! i)"
    if i: "i < length G" for i
  proof -
    have "\<not> isna (?cell i j) \<longleftrightarrow> (\<exists>d' \<in> set (map fst (ss ! j)). d' \<le> ?ks ! i)" if j: "j < ?n" for j
    proof -
      from i have i': "i < length ?ks" by simp
      from column_missing_iff [OF srt sub [OF j] lenc ok [OF j] vj [OF j] i'] show ?thesis by blast
    qed
    then have "(\<forall>j < ?n. \<not> isna (?cell i j)) \<longleftrightarrow> (\<forall>j < ?n. \<exists>d' \<in> set (map fst (ss ! j)). d' \<le> ?ks ! i)"
      by simp
    also have "\<dots> \<longleftrightarrow> (\<forall>s \<in> set ss. \<exists>d' \<in> set (map fst s). d' \<le> ?ks ! i)"
      by (simp add: all_set_conv_all_nth)
    finally show ?thesis .
  qed
  show c1: "sorted (map fst (align ss))"
  proof -
    have "map fst ?FF = ?ks" by (rule nth_equalityI) simp_all
    with srt have "sorted_wrt (\<lambda>a b. fst a \<le> fst b) ?FF" by (simp only: sorted_wrt_map [symmetric])
    then have "sorted_wrt (\<lambda>a b. fst a \<le> fst b) (align ss)" unfolding al by (rule sorted_wrt_filter)
    then show ?thesis by (simp add: sorted_wrt_map)
  qed
  have c2: "d \<in> set (map fst (align ss)) \<longleftrightarrow>
          (\<exists>s \<in> set ss. d \<in> set (map fst s)) \<and> (\<forall>s \<in> set ss. \<exists>d' \<in> set (map fst s). d' \<le> d)" for d
  proof
    assume "d \<in> set (map fst (align ss))"
    then obtain r where r: "r \<in> set (align ss)" "fst r = d" by force
    from r(1) mem obtain i where i: "i < length G" and ri: "r = (?ks ! i, map (?cell i) [0 ..< ?n])"
      and nn: "\<forall>j < ?n. \<not> isna (?cell i j)" by blast
    from ri r(2) have di: "?ks ! i = d" by simp
    from nn pop [OF i] di have all: "\<forall>s \<in> set ss. \<exists>d' \<in> set (map fst s). d' \<le> d" by simp
    from i have "?ks ! i \<in> set ?ks" by (intro nth_mem) simp
    with di have "d \<in> keys_of ss" by (simp only: kset)
    then have "\<exists>s \<in> set ss. d \<in> set (map fst s)" by (simp add: keys_of_def)
    with all show "(\<exists>s \<in> set ss. d \<in> set (map fst s)) \<and> (\<forall>s \<in> set ss. \<exists>d' \<in> set (map fst s). d' \<le> d)"
      by blast
  next
    assume h: "(\<exists>s \<in> set ss. d \<in> set (map fst s)) \<and> (\<forall>s \<in> set ss. \<exists>d' \<in> set (map fst s). d' \<le> d)"
    then have "d \<in> keys_of ss" by (simp add: keys_of_def)
    then have "d \<in> set ?ks" by (simp only: kset)
    then obtain i where i: "i < length ?ks" and di: "?ks ! i = d" by (auto simp: in_set_conv_nth)
    from i have iG: "i < length G" by simp
    from h di pop [OF iG] have nn: "\<forall>j < ?n. \<not> isna (?cell i j)" by simp
    with iG have "(?ks ! i, map (?cell i) [0 ..< ?n]) \<in> set (align ss)" unfolding mem by blast
    with di show "d \<in> set (map fst (align ss))" by force
  qed
  show c2': "\<forall>d. d \<in> set (map fst (align ss)) \<longleftrightarrow>
          (\<exists>s \<in> set ss. d \<in> set (map fst s)) \<and> (\<forall>s \<in> set ss. \<exists>d' \<in> set (map fst s). d' \<le> d)"
    by (rule allI) (rule c2)
  have c3: "length (snd r) = length ss
          \<and> (\<forall>j < length ss. \<exists>d'. (d', snd r ! j) \<in> set (ss ! j) \<and> d' \<le> fst r
                \<and> (\<forall>ob \<in> set (ss ! j). fst ob \<le> fst r \<longrightarrow> fst ob \<le> d'))"
    if "r \<in> set (align ss)" for r
  proof -
    from that mem obtain i where i: "i < length G" and r: "r = (?ks ! i, map (?cell i) [0 ..< ?n])"
      and nn: "\<forall>j < ?n. \<not> isna (?cell i j)" by blast
    from i have i': "i < length ?ks" by simp
    have "\<exists>d'. (d', snd r ! j) \<in> set (ss ! j) \<and> d' \<le> fst r
                \<and> (\<forall>ob \<in> set (ss ! j). fst ob \<le> fst r \<longrightarrow> fst ob \<le> d')" if j: "j < ?n" for j
    proof -
      from nn j have "\<not> isna (?cell i j)" by blast
      from column_last_observed [OF srt sub [OF j] lenc ok [OF j] vj [OF j] i' this] r j
      show ?thesis by simp
    qed
    with r show ?thesis by simp
  qed
  show "\<forall>r \<in> set (align ss). length (snd r) = length ss
          \<and> (\<forall>j < length ss. \<exists>d'. (d', snd r ! j) \<in> set (ss ! j) \<and> d' \<le> fst r
                \<and> (\<forall>ob \<in> set (ss ! j). fst ob \<le> fst r \<longrightarrow> fst ob \<le> d'))"
    by (rule ballI) (rule c3)
  show "align ss = [] \<longleftrightarrow> (\<exists>s \<in> set ss. s = [])"
  proof
    assume e: "align ss = []"
    show "\<exists>s \<in> set ss. s = []"
    proof (rule ccontr)
      assume "\<not> (\<exists>s \<in> set ss. s = [])"
      then have nonempty: "\<forall>s \<in> set ss. s \<noteq> []" by blast
      from ne have "hd ss \<in> set ss" by simp
      then obtain s1 where s1: "s1 \<in> set ss" ..
      with nonempty have "set (map fst s1) \<noteq> {}" by simp
      with s1 have kne: "keys_of ss \<noteq> {}" by (auto simp: keys_of_def)
      have fin: "finite (keys_of ss)" by (simp add: keys_of_def)
      let ?d = "Max (keys_of ss)"
      from fin kne have "?d \<in> keys_of ss" by (rule Max_in)
      then have a: "\<exists>s \<in> set ss. ?d \<in> set (map fst s)" by (simp add: keys_of_def)
      have b: "\<exists>d' \<in> set (map fst s). d' \<le> ?d" if s: "s \<in> set ss" for s
      proof -
        from s nonempty have "s \<noteq> []" by blast
        then have "fst (hd s) \<in> set (map fst s)" by simp
        then obtain d' where d': "d' \<in> set (map fst s)" ..
        with s have "d' \<in> keys_of ss" by (auto simp: keys_of_def)
        with fin have "d' \<le> ?d" by (rule Max_ge)
        with d' show ?thesis by blast
      qed
      from a b have "?d \<in> set (map fst (align ss))" unfolding c2 by blast
      with e show False by simp
    qed
  next
    assume "\<exists>s \<in> set ss. s = []"
    then have em: "[] \<in> set ss" by simp
    have "\<not> (\<forall>s \<in> set ss. \<exists>d' \<in> set (map fst s). d' \<le> d)" for d
    proof
      assume a: "\<forall>s \<in> set ss. \<exists>d' \<in> set (map fst s). d' \<le> d"
      from bspec [OF a em] show False by simp
    qed
    then have "d \<notin> set (map fst (align ss))" for d by (simp only: c2 simp_thms)
    then have "set (map fst (align ss)) = {}" by (intro equals0I) simp
    then show "align ss = []" by simp
  qed
qed

lemma read_series_notna:
  assumes "read_series to_dt to_num df = Inr s"
  shows "\<forall>r \<in> set s. \<not> isna (snd r)"
proof
  fix r assume r: "r \<in> set s"
  from assms obtain ds vs where s: "s = sort_key fst (List.map_filter (coerce_row to_dt to_num) (zip ds vs))"
    by (auto simp: read_series_def split: option.splits)
  obtain ts x where rx: "r = (ts, x)" by (cases r)
  with r s obtain raw where "coerce_row to_dt to_num raw = Some (ts, x)"
    by (auto simp: set_map_filter_iff)
  then have "\<not> isna x" by (simp add: coerce_row_Some)
  with rx show "\<not> isna (snd r)" by simp
qed

lemma read_all_Inr:
  assumes "read_all to_dt to_num dfs = Inr ss"
  shows "length ss = length dfs \<and> (\<forall>j < length dfs. read_series to_dt to_num (dfs ! j) = Inr (ss ! j))"
  using assms
proof (induction dfs arbitrary: ss)
  case Nil
  then show ?case by simp
next
  case (Cons df dfs)
  from Cons.prems obtain s rest where s: "read_series to_dt to_num df = Inr s"
    and rest: "read_all to_dt to_num dfs = Inr rest" and ss: "ss = s # rest"
    by (auto split: sum.splits)
  from Cons.IH [OF rest] have len: "length rest = length dfs"
    and each: "\<forall>j < length dfs. read_series to_dt to_num (dfs ! j) = Inr (rest ! j)" by simp_all
  have "read_series to_dt to_num ((df # dfs) ! j) = Inr (ss ! j)" if "j < length (df # dfs)" for j
    using that s each ss by (cases j) simp_all
  with len ss show ?case by simp
qed

text \<open>
  C7, as the code has it. For the series that the readers return (one or more), the
  aligned table (outer merges, chronological sort, forward fill of every column, \<open>dropna\<close>)
  has its rows in chronological order; it retains exactly the timestamps of the inputs at
  which every series has an observation at or before them, so every row before the first
  such timestamp is dropped; in a retained row the cell of a series is the value of an
  observation of that series at its last timestamp not after the row's (never a later one);
  and the table is empty, with no error, exactly when one of the series has no observation:
  series whose time ranges do not overlap still give rows.
\<close>

theorem build_aligned_rows:
  assumes ne: "dfs \<noteq> []" and rd: "read_all to_dt to_num dfs = Inr ss"
  shows "build_aligned to_dt to_num dfs = Inr (align ss)
    \<and> length ss = length dfs
    \<and> (\<forall>j < length dfs. read_series to_dt to_num (dfs ! j) = Inr (ss ! j))
    \<and> sorted (map fst (align ss))
    \<and> (\<forall>d. d \<in> set (map fst (align ss)) \<longleftrightarrow>
          (\<exists>s \<in> set ss. d \<in> set (map fst s)) \<and> (\<forall>s \<in> set ss. \<exists>d' \<in> set (map fst s). d' \<le> d))
    \<and> (\<forall>r \<in> set (align ss). length (snd r) = length ss
          \<and> (\<forall>j < length ss. \<exists>d'. (d', snd r ! j) \<in> set (ss ! j) \<and> d' \<le> fst r
                \<and> (\<forall>ob \<in> set (ss ! j). fst ob \<le> fst r \<longrightarrow> fst ob \<le> d')))
    \<and> (align ss = [] \<longleftrightarrow> (\<exists>s \<in> set ss. s = []))"
proof -
  have b: "build_aligned to_dt to_num dfs = Inr (align ss)" by (simp add: build_aligned_def rd)
  from read_all_Inr [OF rd] have len: "length ss = length dfs"
    and each: "\<forall>j < length dfs. read_series to_dt to_num (dfs ! j) = Inr (ss ! j)" by simp_all
  from ne len have sne: "ss \<noteq> []" by auto
  have vals: "\<forall>s \<in> set ss. \<forall>r \<in> set s. \<not> isna (snd r)"
  proof
    fix s assume "s \<in> set ss"
    then obtain j where j: "j < length ss" "ss ! j = s" by (auto simp: in_set_conv_nth)
    with each len have "read_series to_dt to_num (dfs ! j) = Inr s" by simp
    then show "\<forall>r \<in> set s. \<not> isna (snd r)" by (rule read_series_notna)
  qed
  note al = align_series_rows [OF sne vals]
  show ?thesis by (intro conjI b len each al)
qed

lemmas align_eval = build_aligned_def read_series_def coerce_row_def align_def to_frame_def
  merge_outer_def ffill_columns_def column_def dropna_def ffill_def upt_conv_Cons nth_Cons' Let_def

theorem build_aligned_rows_witness:
  "read_all Some (\<lambda>x. x)
     [\<lparr>date_col = Some [1, 4, 4, 7 :: int], value_col = Some [Fin 10, Fin 11, Fin 12, Fin 13]\<rparr>,
      \<lparr>date_col = Some [2, 3, 4, 5], value_col = Some [Fin 20, Fin 21, Fin 22, Fin 23]\<rparr>,
      \<lparr>date_col = Some [3, 9], value_col = Some [Fin 30, NaN]\<rparr>]
     = Inr [[(1, Fin 10), (4, Fin 11), (4, Fin 12), (7, Fin 13)],
            [(2, Fin 20), (3, Fin 21), (4, Fin 22), (5, Fin 23)],
            [(3, Fin 30)]]
   \<and> build_aligned Some (\<lambda>x. x)
     [\<lparr>date_col = Some [1, 4, 4, 7 :: int], value_col = Some [Fin 10, Fin 11, Fin 12, Fin 13]\<rparr>,
      \<lparr>date_col = Some [2, 3, 4, 5], value_col = Some [Fin 20, Fin 21, Fin 22, Fin 23]\<rparr>,
      \<lparr>date_col = Some [3, 9], value_col = Some [Fin 30, NaN]\<rparr>]
     = Inr [(3, [Fin 10, Fin 21, Fin 30]), (4, [Fin 11, Fin 22, Fin 30]),
            (4, [Fin 12, Fin 22, Fin 30]), (5, [Fin 12, Fin 23, Fin 30]),
            (7, [Fin 13, Fin 23, Fin 30])]"
  using build_aligned_rows [where to_dt = Some and to_num = "\<lambda>x. x"
      and dfs = "[\<lparr>date_col = Some [1, 4, 4, 7 :: int], value_col = Some [Fin 10, Fin 11, Fin 12, Fin 13]\<rparr>,
      \<lparr>date_col = Some [2, 3, 4, 5], value_col = Some [Fin 20, Fin 21, Fin 22, Fin 23]\<rparr>,
      \<lparr>date_col = Some [3, 9], value_col = Some [Fin 30, NaN]\<rparr>]"
      and ss = "[[(1, Fin 10), (4, Fin 11), (4, Fin 12), (7, Fin 13)],
            [(2, Fin 20), (3, Fin 21), (4, Fin 22), (5, Fin 23)],
            [(3, Fin 30)]]"]
  by (simp add: align_eval)

text \<open>
  C7 as stated fails in its last part: two series whose timestamps never overlap (1, 2 and
  5, 6) give a table of two rows, the first series' last value carried forward, not an empty
  table.
\<close>

theorem align_disjoint_ranges_counterexample:
  "set [1, 2 :: int] \<inter> set [5, 6] = {}
   \<and> build_aligned Some (\<lambda>x. x)
        [\<lparr>date_col = Some [1, 2 :: int], value_col = Some [Fin 10, Fin 11]\<rparr>,
         \<lparr>date_col = Some [5, 6], value_col = Some [Fin 20, Fin 21]\<rparr>]
       = Inr [(5, [Fin 11, Fin 20]), (6, [Fin 11, Fin 21])]"
  by (simp add: align_eval)

end
